theory Spec2Isabelle
  imports Main
begin

section \<open>Shared types\<close>

text \<open>
  A sink is a caller-owned Go channel \<^verbatim>\<open>chan<- PubSubMessage\<close>; its identity is the
  channel reference, modelled by a natural number. Byte slices and Go strings are both
  \<open>string\<close> (a list of bytes); a nil byte slice and an empty one are the same list.
\<close>

type_synonym sink = nat

text \<open>
  The error values of \<^verbatim>\<open>pubsub.go\<close>, and \<open>ErrExternal\<close> for every error that an
  external collaborator (the connection, the writer, the generic RESP reader) hands back.
  \<open>ErrNotMessage\<close> stands for \<^verbatim>\<open>fmt.Errorf("not message or pmessage: %q", m.Type)\<close>.
\<close>

datatype error =
    ErrTooFewElements
  | ErrNotMessage
  | ErrUnknownType
  | ErrConnClosed
  | ErrExternal string

text \<open>
  What a call does: it returns a value, it never returns because it waits on a channel
  that nobody serves, or it panics at run time.
\<close>

datatype 'a outcome = Returned 'a | Blocked | Panicked

section \<open>The push-message codec\<close>

record PubSubMessage =
  Type :: string
  Pattern :: string
  Channel :: string
  Message :: string

text \<open>
  \<^verbatim>\<open>bytes.ToLower\<close> on ASCII bytes: \<open>A\<close> to \<open>Z\<close> become \<open>a\<close> to \<open>z\<close>, every other
  byte below 128 is kept. Go decodes bytes from 128 on as UTF-8 runes and re-encodes their
  lower-case forms; the model keeps such bytes as they are. No rune outside ASCII has a
  lower-case form among the letters of \<open>pmessage\<close>, so the comparisons of the decoder
  with \<open>message\<close> and \<open>pmessage\<close> come out the same.
\<close>

definition lower_byte :: "char \<Rightarrow> char" where
  "lower_byte c =
     (let n = (of_char c :: nat) in if 65 \<le> n \<and> n \<le> 90 then char_of (n + 32) else c)"

definition ToLower :: "string \<Rightarrow> string" where
  "ToLower bs = map lower_byte bs"

text \<open>
  The values that \<^verbatim>\<open>MarshalRESP\<close> hands to the writer, one per call of the
  \<^verbatim>\<open>marshal\<close> closure.
\<close>

datatype resp_item = ArrayHeader int | BulkString string | BulkStringBytes string

text \<open>
  The \<^verbatim>\<open>io.Writer\<close>: whether the write number \<open>i\<close> (counted from 0) fails. The buffer
  is the list of the items written so far.
\<close>

type_synonym writer = "nat \<Rightarrow> error option"

text \<open>The closure \<^verbatim>\<open>marshal\<close>: it writes only while no earlier write has failed.\<close>

definition marshal :: "writer \<Rightarrow> error option \<times> resp_item list \<Rightarrow> resp_item
    \<Rightarrow> error option \<times> resp_item list" where
  "marshal w st item =
     (case fst st of
        None \<Rightarrow>
          (case w (length (snd st)) of
             None \<Rightarrow> (None, snd st @ [item])
           | Some e \<Rightarrow> (Some e, snd st))
      | Some e \<Rightarrow> st)"

definition MarshalRESP :: "PubSubMessage \<Rightarrow> writer \<Rightarrow> error option \<times> resp_item list" where
  "MarshalRESP m w =
     (if Type m = ''message'' then
        (let st = marshal w (None, []) (ArrayHeader 3);
             st = marshal w st (BulkString (Type m));
             st = marshal w st (BulkString (Channel m))
         in marshal w st (BulkStringBytes (Message m)))
      else if Type m = ''pmessage'' then
        (let st = marshal w (None, []) (ArrayHeader 4);
             st = marshal w st (BulkString (Type m));
             st = marshal w st (BulkString (Pattern m));
             st = marshal w st (BulkString (Channel m))
         in marshal w st (BulkStringBytes (Message m)))
      else (Some ErrUnknownType, []))"

text \<open>
  Modelled from the spec: \<^verbatim>\<open>resp2.Any{I: &bb}.UnmarshalRESP\<close> of the package
  \<^verbatim>\<open>resp/resp2\<close>, which is not among the sources. The spec says that decoding
  "reads a generic sequence of byte strings": an array header \<open>n\<close> followed by \<open>n\<close> bulk
  strings gives the \<open>n\<close> byte strings in order; anything else is an error of the reader.
\<close>

fun bulk_bytes :: "resp_item \<Rightarrow> string option" where
  "bulk_bytes (BulkString s) = Some s"
| "bulk_bytes (BulkStringBytes b) = Some b"
| "bulk_bytes (ArrayHeader n) = None"

definition read_byte_strings :: "resp_item list \<Rightarrow> error + string list" where
  "read_byte_strings items =
     (case items of
        ArrayHeader n # rest \<Rightarrow>
          (if 0 \<le> n \<and> nat n \<le> length rest
              \<and> list_all (\<lambda>i. bulk_bytes i \<noteq> None) (take (nat n) rest)
           then Inr (map (\<lambda>i. the (bulk_bytes i)) (take (nat n) rest))
           else Inl (ErrExternal ''resp2''))
      | _ \<Rightarrow> Inl (ErrExternal ''resp2''))"

text \<open>
  The closure \<^verbatim>\<open>pop\<close>: \<^verbatim>\<open>b := bb[0]; bb = bb[1:]\<close>, a run-time panic on an empty
  slice (\<open>None\<close>).
\<close>

fun pop :: "string list \<Rightarrow> (string \<times> string list) option" where
  "pop [] = None"
| "pop (b # bb) = Some (b, bb)"

text \<open>
  \<^verbatim>\<open>UnmarshalRESP\<close>. The first argument is the receiver \<^verbatim>\<open>m\<close>, whose fields the
  method overwrites; the second is what the generic reader returned for \<^verbatim>\<open>bb\<close>.
\<close>

definition UnmarshalRESP :: "PubSubMessage \<Rightarrow> error + string list
    \<Rightarrow> (error + PubSubMessage) outcome" where
  "UnmarshalRESP m rd =
     (case rd of
        Inl err \<Rightarrow> Returned (Inl err)
      | Inr bb \<Rightarrow>
          if length bb < 3 then Returned (Inl ErrTooFewElements)
          else
            (let m = m\<lparr>Type := ToLower (bb ! 0)\<rparr>;
                 isPat = (Type m = ''pmessage'')
             in if isPat \<and> length bb < 4 then Returned (Inl ErrTooFewElements)
                else if \<not> isPat \<and> Type m \<noteq> ''message'' then Returned (Inl ErrNotMessage)
                else
                  (case pop bb of
                     None \<Rightarrow> Panicked
                   | Some (_, bb) \<Rightarrow>
                       (case (if isPat
                              then (case pop bb of
                                      None \<Rightarrow> None
                                    | Some (p, bb) \<Rightarrow> Some (m\<lparr>Pattern := p\<rparr>, bb))
                              else Some (m, bb)) of
                          None \<Rightarrow> Panicked
                        | Some (m, bb) \<Rightarrow>
                            (case pop bb of
                               None \<Rightarrow> Panicked
                             | Some (c, bb) \<Rightarrow>
                                 (case pop bb of
                                    None \<Rightarrow> Panicked
                                  | Some (p, bb) \<Rightarrow>
                                      Returned (Inr (m\<lparr>Channel := c, Message := p\<rparr>))))))))"

section \<open>The subscription registry\<close>

text \<open>
  \<^verbatim>\<open>type chanSet map[string]map[chan<- PubSubMessage]bool\<close>. The inner map only ever
  holds the value \<^verbatim>\<open>true\<close>, so it is the set of its keys. \<open>NilSet\<close> is Go's nil map:
  reading it finds nothing, assigning into it panics.
\<close>

datatype chanSet = NilSet | ChanSet "string \<rightharpoonup> sink set"

text \<open>The two-valued read \<^verbatim>\<open>m, ok := cs[s]\<close>.\<close>

fun lookup :: "chanSet \<Rightarrow> string \<Rightarrow> sink set option" where
  "lookup NilSet s = None"
| "lookup (ChanSet f) s = f s"

text \<open>\<^verbatim>\<open>add\<close>; \<open>None\<close> is the panic of an assignment into a nil map.\<close>

fun add :: "chanSet \<Rightarrow> string \<Rightarrow> sink \<Rightarrow> chanSet option" where
  "add NilSet s ch = None"
| "add (ChanSet f) s ch =
     (case f s of
        None \<Rightarrow> Some (ChanSet (f(s \<mapsto> {ch})))
      | Some m \<Rightarrow> Some (ChanSet (f(s \<mapsto> insert ch m))))"

text \<open>\<^verbatim>\<open>del\<close> returns its boolean and the registry after the call.\<close>

fun del :: "chanSet \<Rightarrow> string \<Rightarrow> sink \<Rightarrow> bool \<times> chanSet" where
  "del NilSet s ch = (True, NilSet)"
| "del (ChanSet f) s ch =
     (case f s of
        None \<Rightarrow> (True, ChanSet f)
      | Some m \<Rightarrow>
          (let m = m - {ch}
           in if m = {} then (True, ChanSet (f(s := None)))
              else (False, ChanSet (f(s \<mapsto> m)))))"

text \<open>
  \<^verbatim>\<open>missing\<close> filters in place: \<^verbatim>\<open>out := ss[:0]\<close> shares the backing array of
  \<^verbatim>\<open>ss\<close>, so every \<^verbatim>\<open>append\<close> overwrites a slot of the caller's slice.
  \<open>missing_loop cs arr i n\<close> is the loop from index \<open>i\<close> on, with \<open>n\<close> the length
  of \<^verbatim>\<open>out\<close>; it returns the backing array and the length of \<^verbatim>\<open>out\<close> at the end.
\<close>

function missing_loop :: "chanSet \<Rightarrow> string list \<Rightarrow> nat \<Rightarrow> nat \<Rightarrow> string list \<times> nat" where
  "missing_loop cs arr i n =
     (if i < length arr then
        (if lookup cs (arr ! i) = None
         then missing_loop cs (arr[n := arr ! i]) (i + 1) (n + 1)
         else missing_loop cs arr (i + 1) n)
      else (arr, n))"
  by pat_completeness auto
termination
  by (relation "measure (\<lambda>(cs, arr, i, n). length arr - i)") auto

declare missing_loop.simps [simp del]

text \<open>
  \<^verbatim>\<open>missing\<close>: the returned slice \<^verbatim>\<open>out\<close>, and the contents of the argument slice
  \<^verbatim>\<open>ss\<close> as the caller sees them afterwards.
\<close>

definition missing :: "chanSet \<Rightarrow> string list \<Rightarrow> string list \<times> string list" where
  "missing cs ss = (let (arr, n) = missing_loop cs ss 0 0 in (take n arr, arr))"

section \<open>The connection\<close>

text \<open>
  A call of \<^verbatim>\<open>do\<close>: the expected number of acknowledgements, the command name and
  its arguments, as they are handed to \<^verbatim>\<open>Cmd\<close> and \<^verbatim>\<open>conn.Encode\<close>.
\<close>

datatype wire_cmd = WireCmd nat string "string list"

text \<open>
  What one receive from \<^verbatim>\<open>cmdResCh\<close> yields: a value sent by the reader loop, or
  the channel found closed (\<^verbatim>\<open>ok == false\<close>).
\<close>

datatype reply = Reply "error option" | ChanClosed

text \<open>
  The surroundings of one call of \<^verbatim>\<open>do\<close>: what \<^verbatim>\<open>conn.Encode\<close> returns, and
  what the successive receives from \<^verbatim>\<open>cmdResCh\<close> yield. When the list is used up
  the next receive waits forever.
\<close>

record wire_env =
  encode_err :: "error option"
  replies :: "reply list"

text \<open>
  The surroundings of a close: what \<^verbatim>\<open>conn.Close\<close> returns, and whether the send
  on \<^verbatim>\<open>closeErrCh\<close> is taken by the observer.
\<close>

record close_env =
  conn_close_err :: "error option"
  observer_ready :: bool

text \<open>The state of a \<^verbatim>\<open>sync.Once\<close>.\<close>

datatype once = OnceNew | OnceRunning | OnceDone

text \<open>
  \<^verbatim>\<open>pubSubConn\<close>. \<open>issued\<close> stands for the connection: the log of the commands that
  \<^verbatim>\<open>do\<close> handed to \<^verbatim>\<open>conn.Encode\<close>. \<open>cmdResCh\<close> and \<open>closeErrCh\<close> say whether
  the field is non-nil; \<open>observed\<close> lists the values sent on \<^verbatim>\<open>closeErrCh\<close>. The
  locks are not modelled: calls run one after the other, and a call that is \<open>Blocked\<close>
  never returns, so nothing is run after it.
\<close>

record pubSubConn =
  issued :: "wire_cmd list"
  subs :: chanSet
  psubs :: chanSet
  cmdResCh :: bool
  close :: once
  closeErr :: "error option"
  closeErrCh :: bool
  observed :: "error option list"

definition newPubSub :: "bool \<Rightarrow> pubSubConn" where
  "newPubSub closeErrCh_given =
     \<lparr>issued = [], subs = ChanSet Map.empty, psubs = ChanSet Map.empty, cmdResCh = True,
      close = OnceNew, closeErr = None, closeErrCh = closeErrCh_given, observed = []\<rparr>"

definition PubSub :: pubSubConn where
  "PubSub = newPubSub False"

text \<open>\<^verbatim>\<open>recvCmdRes\<close>: the result and the replies still to come.\<close>

definition recvCmdRes :: "pubSubConn \<Rightarrow> reply list \<Rightarrow> error option outcome \<times> reply list" where
  "recvCmdRes c rs =
     (if cmdResCh c then
        (case rs of
           [] \<Rightarrow> (Blocked, [])
         | Reply err # rs' \<Rightarrow> (Returned err, rs')
         | ChanClosed # rs' \<Rightarrow> (Returned (Some ErrConnClosed), rs'))
      else (Returned (Some ErrConnClosed), rs))"

text \<open>The loop \<^verbatim>\<open>for i := 0; i < exp; i++\<close> of \<^verbatim>\<open>do\<close>.\<close>

fun recv_loop :: "pubSubConn \<Rightarrow> nat \<Rightarrow> reply list \<Rightarrow> error option outcome" where
  "recv_loop c 0 rs = Returned None"
| "recv_loop c (Suc k) rs =
     (case recvCmdRes c rs of
        (Returned None, rs') \<Rightarrow> recv_loop c k rs'
      | (Returned (Some err), rs') \<Rightarrow> Returned (Some err)
      | (Blocked, rs') \<Rightarrow> Blocked
      | (Panicked, rs') \<Rightarrow> Panicked)"

text \<open>\<^verbatim>\<open>do\<close>.\<close>

definition do_cmd :: "pubSubConn \<Rightarrow> nat \<Rightarrow> string \<Rightarrow> string list \<Rightarrow> wire_env
    \<Rightarrow> error option outcome \<times> pubSubConn" where
  "do_cmd c exp cmd args env =
     (let c = c\<lparr>issued := issued c @ [WireCmd exp cmd args]\<rparr>
      in case encode_err env of
           Some err \<Rightarrow> (Returned (Some err), c)
         | None \<Rightarrow> (recv_loop c exp (replies env), c))"

text \<open>
  \<^verbatim>\<open>closeInner\<close>. The non-blocking \<^verbatim>\<open>sendCmdResNb\<close> leaves a value for a caller
  that waits in \<^verbatim>\<open>do\<close> at that moment; it changes no field. When the observer does
  not take the send on \<^verbatim>\<open>closeErrCh\<close>, the function passed to \<^verbatim>\<open>close.Do\<close>
  never ends, and every later \<^verbatim>\<open>close.Do\<close> waits for it.
\<close>

definition closeInner :: "pubSubConn \<Rightarrow> error option \<Rightarrow> close_env
    \<Rightarrow> error option outcome \<times> pubSubConn" where
  "closeInner c cmdResErr env =
     (case close c of
        OnceDone \<Rightarrow> (Returned (closeErr c), c)
      | OnceRunning \<Rightarrow> (Blocked, c)
      | OnceNew \<Rightarrow>
          (let c = c\<lparr>close := OnceRunning\<rparr>;
               c = c\<lparr>closeErr := conn_close_err env\<rparr>;
               c = c\<lparr>subs := NilSet\<rparr>;
               c = c\<lparr>psubs := NilSet\<rparr>
           in if closeErrCh c \<and> \<not> observer_ready env then (Blocked, c)
              else
                (let c = (if closeErrCh c
                          then c\<lparr>observed := observed c @ [cmdResErr], closeErrCh := False\<rparr>
                          else c);
                     c = c\<lparr>cmdResCh := False\<rparr>;
                     c = c\<lparr>close := OnceDone\<rparr>
                 in (Returned (closeErr c), c))))"

definition Close :: "pubSubConn \<Rightarrow> close_env \<Rightarrow> error option outcome \<times> pubSubConn" where
  "Close c env = closeInner c None env"

text \<open>
  Two calls of \<^verbatim>\<open>closeInner\<close> at the same time. A call is cut into its steps, each
  one an access to the connection, and where a call stands is its program counter:
  before \<^verbatim>\<open>close.Do\<close>; inside the function passed to it, before each of its
  statements; on the way out of \<^verbatim>\<open>close.Do\<close>; before \<^verbatim>\<open>return c.closeErr\<close>;
  returned, with the value.
\<close>

datatype close_pc =
    PcEnter | PcConnClose | PcSubs | PcPsubs | PcNotify | PcCmdResCh | PcLeave | PcReturn
  | PcReturned "error option"

text \<open>
  One step of a call. \<^verbatim>\<open>close.Do\<close> lets the first caller in and marks the once as
  running; a caller that finds it running waits (the step changes nothing); a caller that
  finds it done goes on to the return. The statements of the function are those of
  \<^verbatim>\<open>closeInner\<close>, in order; the send on \<^verbatim>\<open>closeErrCh\<close> waits while the observer
  does not take it. Leaving the function marks the once as done. Both channel closes are
  guarded by a nil check under their lock, so no step panics. Nothing else holds
  \<^verbatim>\<open>csL\<close> here, so taking it is no step of its own.
\<close>

fun close_step :: "close_env \<Rightarrow> error option \<Rightarrow> pubSubConn \<Rightarrow> close_pc
    \<Rightarrow> pubSubConn \<times> close_pc" where
  "close_step env cmdResErr c PcEnter =
     (case close c of
        OnceNew \<Rightarrow> (c\<lparr>close := OnceRunning\<rparr>, PcConnClose)
      | OnceRunning \<Rightarrow> (c, PcEnter)
      | OnceDone \<Rightarrow> (c, PcReturn))"
| "close_step env cmdResErr c PcConnClose = (c\<lparr>closeErr := conn_close_err env\<rparr>, PcSubs)"
| "close_step env cmdResErr c PcSubs = (c\<lparr>subs := NilSet\<rparr>, PcPsubs)"
| "close_step env cmdResErr c PcPsubs = (c\<lparr>psubs := NilSet\<rparr>, PcNotify)"
| "close_step env cmdResErr c PcNotify =
     (if closeErrCh c then
        (if observer_ready env
         then (c\<lparr>observed := observed c @ [cmdResErr], closeErrCh := False\<rparr>, PcCmdResCh)
         else (c, PcNotify))
      else (c, PcCmdResCh))"
| "close_step env cmdResErr c PcCmdResCh = (c\<lparr>cmdResCh := False\<rparr>, PcLeave)"
| "close_step env cmdResErr c PcLeave = (c\<lparr>close := OnceDone\<rparr>, PcReturn)"
| "close_step env cmdResErr c PcReturn = (c, PcReturned (closeErr c))"
| "close_step env cmdResErr c (PcReturned r) = (c, PcReturned r)"

text \<open>
  An interleaving of two calls with arguments \<open>e1\<close> and \<open>e2\<close>: the schedule says,
  step by step, which call moves (\<open>True\<close> the first, \<open>False\<close> the second). A call
  that starts later is a call that the schedule does not move at first.
\<close>

fun interleave :: "close_env \<Rightarrow> error option \<Rightarrow> error option \<Rightarrow> bool list
    \<Rightarrow> pubSubConn \<times> close_pc \<times> close_pc \<Rightarrow> pubSubConn \<times> close_pc \<times> close_pc" where
  "interleave env e1 e2 [] cfg = cfg"
| "interleave env e1 e2 (t # ts) (c, p1, p2) =
     (if t then (let (c', p1') = close_step env e1 c p1 in interleave env e1 e2 ts (c', p1', p2))
      else (let (c', p2') = close_step env e2 c p2 in interleave env e1 e2 ts (c', p1, p2')))"

text \<open>
  A number of steps of one call alone.
\<close>

fun close_steps :: "close_env \<Rightarrow> error option \<Rightarrow> nat \<Rightarrow> pubSubConn \<times> close_pc
    \<Rightarrow> pubSubConn \<times> close_pc" where
  "close_steps env e 0 cfg = cfg"
| "close_steps env e (Suc n) (c, p) = close_steps env e n (close_step env e c p)"

text \<open>The loop \<^verbatim>\<open>for _, channel := range channels { c.subs.add(channel, msgCh) }\<close>.\<close>

fun add_all :: "chanSet \<Rightarrow> string list \<Rightarrow> sink \<Rightarrow> chanSet option" where
  "add_all cs [] ch = Some cs"
| "add_all cs (s # ss) ch =
     (case add cs s ch of None \<Rightarrow> None | Some cs' \<Rightarrow> add_all cs' ss ch)"

text \<open>
  \<^verbatim>\<open>Subscribe\<close>. After \<^verbatim>\<open>missing\<close> the slice \<^verbatim>\<open>channels\<close> holds what the
  in-place filter left in its backing array, and the loop over \<^verbatim>\<open>channels\<close> reads that.
\<close>

definition Subscribe :: "pubSubConn \<Rightarrow> sink \<Rightarrow> string list \<Rightarrow> wire_env
    \<Rightarrow> error option outcome \<times> pubSubConn" where
  "Subscribe c msgCh channels env =
     (let (miss, channels) = missing (subs c) channels;
          (r, c) = (if length miss > 0 then do_cmd c (length miss) ''SUBSCRIBE'' miss env
                    else (Returned None, c))
      in case r of
           Returned None \<Rightarrow>
             (case add_all (subs c) channels msgCh of
                None \<Rightarrow> (Panicked, c)
              | Some cs \<Rightarrow> (Returned None, c\<lparr>subs := cs\<rparr>))
         | Returned (Some err) \<Rightarrow> (Returned (Some err), c)
         | Blocked \<Rightarrow> (Blocked, c)
         | Panicked \<Rightarrow> (Panicked, c))"

definition PSubscribe :: "pubSubConn \<Rightarrow> sink \<Rightarrow> string list \<Rightarrow> wire_env
    \<Rightarrow> error option outcome \<times> pubSubConn" where
  "PSubscribe c msgCh patterns env =
     (let (miss, patterns) = missing (psubs c) patterns;
          (r, c) = (if length miss > 0 then do_cmd c (length miss) ''PSUBSCRIBE'' miss env
                    else (Returned None, c))
      in case r of
           Returned None \<Rightarrow>
             (case add_all (psubs c) patterns msgCh of
                None \<Rightarrow> (Panicked, c)
              | Some cs \<Rightarrow> (Returned None, c\<lparr>psubs := cs\<rparr>))
         | Returned (Some err) \<Rightarrow> (Returned (Some err), c)
         | Blocked \<Rightarrow> (Blocked, c)
         | Panicked \<Rightarrow> (Panicked, c))"

text \<open>
  The loop of \<^verbatim>\<open>Unsubscribe\<close> over \<^verbatim>\<open>channels\<close>: the registry after it and the
  slice \<^verbatim>\<open>emptyChannels\<close>, which is a fresh slice.
\<close>

fun del_all :: "chanSet \<Rightarrow> string list \<Rightarrow> sink \<Rightarrow> string list \<Rightarrow> chanSet \<times> string list" where
  "del_all cs [] ch emptyChannels = (cs, emptyChannels)"
| "del_all cs (s # ss) ch emptyChannels =
     (let (empty, cs') = del cs s ch
      in del_all cs' ss ch (if empty then emptyChannels @ [s] else emptyChannels))"

definition Unsubscribe :: "pubSubConn \<Rightarrow> sink \<Rightarrow> string list \<Rightarrow> wire_env
    \<Rightarrow> error option outcome \<times> pubSubConn" where
  "Unsubscribe c msgCh channels env =
     (let (cs, emptyChannels) = del_all (subs c) channels msgCh [];
          c = c\<lparr>subs := cs\<rparr>
      in if length emptyChannels = 0 then (Returned None, c)
         else do_cmd c (length emptyChannels) ''UNSUBSCRIBE'' emptyChannels env)"

definition PUnsubscribe :: "pubSubConn \<Rightarrow> sink \<Rightarrow> string list \<Rightarrow> wire_env
    \<Rightarrow> error option outcome \<times> pubSubConn" where
  "PUnsubscribe c msgCh patterns env =
     (let (cs, emptyPatterns) = del_all (psubs c) patterns msgCh [];
          c = c\<lparr>psubs := cs\<rparr>
      in if length emptyPatterns = 0 then (Returned None, c)
         else do_cmd c (length emptyPatterns) ''PUNSUBSCRIBE'' emptyPatterns env)"

definition Ping :: "pubSubConn \<Rightarrow> wire_env \<Rightarrow> error option outcome \<times> pubSubConn" where
  "Ping c env = do_cmd c 1 ''PING'' [] env"

text \<open>
  The one-valued read \<^verbatim>\<open>cs[s]\<close>: the inner map, nil when the key is absent, and a
  \<^verbatim>\<open>range\<close> over a nil map visits nothing.
\<close>

definition index :: "chanSet \<Rightarrow> string \<Rightarrow> sink set" where
  "index cs s = (case lookup cs s of None \<Rightarrow> {} | Some m \<Rightarrow> m)"





section \<open>Sequences of calls\<close>

text \<open>Registry operations, run in order from a given registry.\<close>

datatype reg_op = Add string sink | Del string sink

fun reg_run :: "chanSet \<Rightarrow> reg_op list \<Rightarrow> chanSet option" where
  "reg_run cs [] = Some cs"
| "reg_run cs (Add s ch # ops) =
     (case add cs s ch of None \<Rightarrow> None | Some cs' \<Rightarrow> reg_run cs' ops)"
| "reg_run cs (Del s ch # ops) = reg_run (snd (del cs s ch)) ops"

text \<open>
  Calls of \<^verbatim>\<open>Subscribe\<close> and \<^verbatim>\<open>Unsubscribe\<close>, each with the surroundings of its
  wire command. \<open>run\<close> stops at the first call that does not return.
\<close>

datatype call =
    CallSubscribe sink "string list" wire_env
  | CallUnsubscribe sink "string list" wire_env

fun step :: "pubSubConn \<Rightarrow> call \<Rightarrow> error option outcome \<times> pubSubConn" where
  "step c (CallSubscribe msgCh channels env) = Subscribe c msgCh channels env"
| "step c (CallUnsubscribe msgCh channels env) = Unsubscribe c msgCh channels env"

fun run :: "pubSubConn \<Rightarrow> call list \<Rightarrow> pubSubConn" where
  "run c [] = c"
| "run c (x # xs) =
     (case step c x of
        (Returned r, c') \<Rightarrow> run c' xs
      | (Blocked, c') \<Rightarrow> c'
      | (Panicked, c') \<Rightarrow> c')"

text \<open>Whether a logged command has the given name and names the key.\<close>

fun names :: "string \<Rightarrow> string \<Rightarrow> wire_cmd \<Rightarrow> bool" where
  "names cmd k (WireCmd exp cmd' args) = (cmd' = cmd \<and> k \<in> set args)"

text \<open>
  \<open>subscribe_waits k log\<close>: reading the log in order, no \<^verbatim>\<open>SUBSCRIBE\<close> names \<open>k\<close>
  before an \<^verbatim>\<open>UNSUBSCRIBE\<close> has named it.
\<close>

fun subscribe_waits :: "string \<Rightarrow> wire_cmd list \<Rightarrow> bool" where
  "subscribe_waits k [] = True"
| "subscribe_waits k (e # es) =
     (if names ''UNSUBSCRIBE'' k e then True
      else \<not> names ''SUBSCRIBE'' k e \<and> subscribe_waits k es)"

section \<open>Auxiliary definitions for the statements\<close>

text \<open>
  The invariant of the registry: every key of the map has a non-empty set of sinks.
\<close>

definition nonempty_sets :: "chanSet \<Rightarrow> bool" where
  "nonempty_sets cs = (\<forall>s m. lookup cs s = Some m \<longrightarrow> m \<noteq> {})"


text \<open>
  The state that \<^verbatim>\<open>closeInner\<close> leaves behind: the once has fired, both registries are
  nil and \<^verbatim>\<open>cmdResCh\<close> is nil.
\<close>

definition closed :: "pubSubConn \<Rightarrow> bool" where
  "closed c = (close c = OnceDone \<and> subs c = NilSet \<and> psubs c = NilSet \<and> \<not> cmdResCh c)"

text \<open>
  The error of \<^verbatim>\<open>do\<close> on a closed connection: the error of \<^verbatim>\<open>conn.Encode\<close> when
  encoding fails, else \<^verbatim>\<open>errors.New("connection closed")\<close> from \<^verbatim>\<open>recvCmdRes\<close>.
\<close>

definition closed_error :: "wire_env \<Rightarrow> error" where
  "closed_error env = (case encode_err env of Some err \<Rightarrow> err | None \<Rightarrow> ErrConnClosed)"

text \<open>
  Surroundings in which the command is encoded and \<open>n\<close> acknowledgements arrive.
\<close>

definition acks :: "nat \<Rightarrow> wire_env" where
  "acks n = \<lparr>encode_err = None, replies = replicate n (Reply None)\<rparr>"

text \<open>
  Surroundings in which \<^verbatim>\<open>conn.Encode\<close> fails.
\<close>

definition broken_pipe :: wire_env where
  "broken_pipe = \<lparr>encode_err = Some (ErrExternal ''broken pipe''), replies = []\<rparr>"

text \<open>
  Surroundings in which \<^verbatim>\<open>conn.Close\<close> returns nil and the observer, if any, listens.
\<close>

definition quiet_close :: close_env where
  "quiet_close = \<lparr>conn_close_err = None, observer_ready = True\<rparr>"

text \<open>
  The connection after sink 1 has subscribed to \<open>chan1\<close>.
\<close>

definition one_subscribed :: pubSubConn where
  "one_subscribed =
     PubSub\<lparr>issued := [WireCmd 1 ''SUBSCRIBE'' [''chan1'']],
            subs := ChanSet [''chan1'' \<mapsto> {1}]\<rparr>"

text \<open>
  The fresh connection after \<^verbatim>\<open>Close\<close>.
\<close>

definition closed_conn :: pubSubConn where
  "closed_conn = PubSub\<lparr>subs := NilSet, psubs := NilSet, cmdResCh := False, close := OnceDone\<rparr>"



text \<open>
  Whether a call stands inside the function passed to \<^verbatim>\<open>close.Do\<close>.
\<close>

fun in_body :: "close_pc \<Rightarrow> bool" where
  "in_body PcEnter = False"
| "in_body PcReturn = False"
| "in_body (PcReturned r) = False"
| "in_body pc = True"

text \<open>
  The connection is closed and holds the result of \<^verbatim>\<open>conn.Close\<close>.
\<close>

definition done_ok :: "close_env \<Rightarrow> pubSubConn \<Rightarrow> bool" where
  "done_ok env c = (closed c \<and> closeErr c = conn_close_err env)"

text \<open>
  What holds of the connection when a call stands at a program counter.
\<close>

fun thread_ok :: "close_env \<Rightarrow> pubSubConn \<Rightarrow> close_pc \<Rightarrow> bool" where
  "thread_ok env c PcEnter = True"
| "thread_ok env c PcConnClose = (close c = OnceRunning)"
| "thread_ok env c PcSubs = (close c = OnceRunning \<and> closeErr c = conn_close_err env)"
| "thread_ok env c PcPsubs =
     (close c = OnceRunning \<and> closeErr c = conn_close_err env \<and> subs c = NilSet)"
| "thread_ok env c PcNotify =
     (close c = OnceRunning \<and> closeErr c = conn_close_err env \<and> subs c = NilSet
      \<and> psubs c = NilSet)"
| "thread_ok env c PcCmdResCh =
     (close c = OnceRunning \<and> closeErr c = conn_close_err env \<and> subs c = NilSet
      \<and> psubs c = NilSet \<and> \<not> closeErrCh c)"
| "thread_ok env c PcLeave =
     (close c = OnceRunning \<and> closeErr c = conn_close_err env \<and> subs c = NilSet
      \<and> psubs c = NilSet \<and> \<not> closeErrCh c \<and> \<not> cmdResCh c)"
| "thread_ok env c PcReturn = done_ok env c"
| "thread_ok env c (PcReturned r) = (done_ok env c \<and> r = conn_close_err env)"

text \<open>
  The invariant of two interleaved calls: each stands where the connection allows it,
  at most one is inside the function, the once is running only while one is inside, and
  once it is done the connection is closed.
\<close>

definition close_inv :: "close_env \<Rightarrow> pubSubConn \<Rightarrow> close_pc \<Rightarrow> close_pc \<Rightarrow> bool" where
  "close_inv env c p q =
     (thread_ok env c p \<and> thread_ok env c q \<and> \<not> (in_body p \<and> in_body q)
      \<and> (close c = OnceRunning \<longrightarrow> in_body p \<or> in_body q)
      \<and> (close c = OnceDone \<longrightarrow> done_ok env c))"

text \<open>
  A schedule in which the second call arrives while the first is inside the function.
\<close>

definition racing :: "bool list" where
  "racing = [True, False, False, True, False]"

section \<open>Facts about the codec\<close>

lemma ToLower_message: "ToLower ''message'' = ''message''"
  by code_simp

lemma ToLower_pmessage: "ToLower ''pmessage'' = ''pmessage''"
  by code_simp

lemma three_elems:
  assumes "3 \<le> length (bb :: 'a list)"
  obtains b0 b1 b2 rest where "bb = b0 # b1 # b2 # rest"
proof -
  from assms obtain b0 t0 where 0: "bb = b0 # t0" by (cases bb) auto
  with assms obtain b1 t1 where 1: "t0 = b1 # t1" by (cases t0) auto
  with 0 assms obtain b2 t2 where 2: "t1 = b2 # t2" by (cases t1) auto
  from 0 1 2 that show thesis by blast
qed

lemma UnmarshalRESP_message:
  assumes "3 \<le> length bb" and "ToLower (bb ! 0) = ''message''"
  shows "UnmarshalRESP m (Inr bb) =
           Returned (Inr (m\<lparr>Type := ''message'', Channel := bb ! 1, Message := bb ! 2\<rparr>))"
proof -
  from assms(1) obtain b0 b1 b2 rest where bb: "bb = b0 # b1 # b2 # rest"
    by (rule three_elems)
  with assms(2) have "ToLower b0 = ''message''" by simp
  then show ?thesis
    by (simp add: UnmarshalRESP_def Let_def bb)
qed

lemma UnmarshalRESP_pmessage:
  assumes "4 \<le> length bb" and "ToLower (bb ! 0) = ''pmessage''"
  shows "UnmarshalRESP m (Inr bb) =
           Returned (Inr (m\<lparr>Type := ''pmessage'', Pattern := bb ! 1, Channel := bb ! 2,
                            Message := bb ! 3\<rparr>))"
proof -
  from assms(1) have "3 \<le> length bb" by simp
  then obtain b0 b1 b2 t where bb0: "bb = b0 # b1 # b2 # t"
    by (rule three_elems)
  with assms(1) obtain b3 rest where t: "t = b3 # rest" by (cases t) auto
  from bb0 assms(2) have "ToLower b0 = ''pmessage''" by simp
  then show ?thesis
    by (simp add: UnmarshalRESP_def Let_def bb0 t)
qed

lemma UnmarshalRESP_short:
  "length bb < 3 \<Longrightarrow> UnmarshalRESP m (Inr bb) = Returned (Inl ErrTooFewElements)"
  by (simp add: UnmarshalRESP_def)

lemma UnmarshalRESP_pmessage_short:
  "ToLower (bb ! 0) = ''pmessage'' \<Longrightarrow> length bb < 4 \<Longrightarrow>
     UnmarshalRESP m (Inr bb) = Returned (Inl ErrTooFewElements)"
  by (simp add: UnmarshalRESP_def Let_def)

lemma UnmarshalRESP_other:
  "3 \<le> length bb \<Longrightarrow> ToLower (bb ! 0) \<noteq> ''pmessage'' \<Longrightarrow> ToLower (bb ! 0) \<noteq> ''message'' \<Longrightarrow>
     UnmarshalRESP m (Inr bb) = Returned (Inl ErrNotMessage)"
  by (simp add: UnmarshalRESP_def Let_def)

lemma MarshalRESP_message:
  "Type m = ''message'' \<Longrightarrow> MarshalRESP m w = (None, items) \<Longrightarrow>
     items = [ArrayHeader 3, BulkString ''message'', BulkString (Channel m),
              BulkStringBytes (Message m)]"
  by (auto simp: MarshalRESP_def marshal_def Let_def split: option.splits)

lemma MarshalRESP_pmessage:
  "Type m = ''pmessage'' \<Longrightarrow> MarshalRESP m w = (None, items) \<Longrightarrow>
     items = [ArrayHeader 4, BulkString ''pmessage'', BulkString (Pattern m),
              BulkString (Channel m), BulkStringBytes (Message m)]"
  by (auto simp: MarshalRESP_def marshal_def Let_def split: option.splits)

lemma read_message: "read_byte_strings [ArrayHeader 3, BulkString a, BulkString b, BulkStringBytes c] = Inr [a, b, c]"
  by (simp add: read_byte_strings_def)

lemma read_pmessage: "read_byte_strings [ArrayHeader 4, BulkString a, BulkString p, BulkString b, BulkStringBytes c] = Inr [a, p, b, c]"
  by (simp add: read_byte_strings_def)

section \<open>Facts about the registry\<close>

lemma missing_loop_spec:
  "n \<le> i \<Longrightarrow> i \<le> length arr \<Longrightarrow>
   missing_loop cs arr i n =
     (let out = filter (\<lambda>s. lookup cs s = None) (drop i arr)
      in (take n arr @ out @ drop (n + length out) arr, n + length out))"
proof (induction cs arr i n rule: missing_loop.induct)
  case (1 cs arr i n)
  show ?case
  proof (cases "i < length arr")
    case False
    with "1.prems" show ?thesis by (subst missing_loop.simps) simp
  next
    case True
    then have d: "drop i arr = arr ! i # drop (Suc i) arr"
      by (simp add: Cons_nth_drop_Suc)
    show ?thesis
    proof (cases "lookup cs (arr ! i) = None")
      case miss: True
      have upd_drop: "drop (Suc i) (arr[n := arr ! i]) = drop (Suc i) arr"
        using "1.prems" by simp
      have upd_take: "take (Suc n) (arr[n := arr ! i]) = take n arr @ [arr ! i]"
        using "1.prems" True by (simp add: take_Suc_conv_app_nth)
      have upd_drop2: "\<And>k. drop (Suc (n + k)) (arr[n := arr ! i]) = drop (Suc (n + k)) arr"
        by simp
      have "missing_loop cs arr i n = missing_loop cs (arr[n := arr ! i]) (i + 1) (n + 1)"
        using True miss by (subst missing_loop.simps) simp
      also have "\<dots> = (let out = filter (\<lambda>s. lookup cs s = None) (drop (i + 1) (arr[n := arr ! i]))
             in (take (n + 1) (arr[n := arr ! i]) @ out @ drop (n + 1 + length out) (arr[n := arr ! i]),
                 n + 1 + length out))"
        using "1.IH"(1)[OF True miss] "1.prems" True by simp
      finally show ?thesis
        using miss by (simp add: d upd_drop upd_take upd_drop2 Let_def)
    next
      case present: False
      have "missing_loop cs arr i n = missing_loop cs arr (i + 1) n"
        using True present by (subst missing_loop.simps) auto
      also have "\<dots> = (let out = filter (\<lambda>s. lookup cs s = None) (drop (i + 1) arr)
             in (take n arr @ out @ drop (n + length out) arr, n + length out))"
        using "1.IH"(2)[OF True present] "1.prems" True by simp
      finally show ?thesis
        using present by (simp add: d Let_def)
    qed
  qed
qed

lemma missing_eq:
  "missing cs ss =
     (filter (\<lambda>s. lookup cs s = None) ss,
      filter (\<lambda>s. lookup cs s = None) ss @ drop (length (filter (\<lambda>s. lookup cs s = None) ss)) ss)"
  by (simp add: missing_def missing_loop_spec Let_def)

lemma add_all_ChanSet:
  "add_all (ChanSet f) ss ch =
     Some (ChanSet (\<lambda>s. if s \<in> set ss then Some (insert ch (index (ChanSet f) s)) else f s))"
proof (induction ss arbitrary: f)
  case Nil
  show ?case by simp
next
  case (Cons a ss)
  show ?case
    by (cases "f a") (auto simp: Cons.IH index_def fun_eq_iff)
qed

lemma add_all_NilSet: "add_all NilSet ss ch = (if ss = [] then Some NilSet else None)"
  by (cases ss) simp_all

lemma del_ChanSet: "\<exists>f'. snd (del (ChanSet f) s ch) = ChanSet f'"
  by (auto simp: Let_def split: option.splits)

lemma del_all_NilSet: "del_all NilSet ss ch acc = (NilSet, acc @ ss)"
  by (induction ss arbitrary: acc) simp_all

section \<open>The codec: claims C4, C7 and C10\<close>

text \<open>
  Claim C7, amended. For every sequence \<open>bb\<close> of byte strings handed to the decoder: with fewer
  than 3 elements decoding fails (too few elements); when the first element lower-cases to
  \<open>pmessage\<close>, decoding fails with fewer than 4 elements and otherwise succeeds with the
  second element as the pattern; when the first element lower-cases to neither
  \<open>message\<close> nor \<open>pmessage\<close>, decoding fails, and for a sequence of 3 elements or
  more the error is the unrecognized-kind error \<open>ErrNotMessage\<close> (for a shorter one
  the length check comes first and the error is the one of too few elements); a well-formed sequence whose payload element is empty decodes
  successfully, to an empty payload.
\<close>

theorem C7_decoder_cases:
  "(length bb < 3 \<longrightarrow> UnmarshalRESP m (Inr bb) = Returned (Inl ErrTooFewElements))
   \<and> (bb \<noteq> [] \<and> ToLower (bb ! 0) = ''pmessage'' \<and> length bb < 4 \<longrightarrow>
        UnmarshalRESP m (Inr bb) = Returned (Inl ErrTooFewElements))
   \<and> (ToLower (bb ! 0) = ''pmessage'' \<and> 4 \<le> length bb \<longrightarrow>
        (\<exists>m'. UnmarshalRESP m (Inr bb) = Returned (Inr m') \<and> Pattern m' = bb ! 1))
   \<and> (bb \<noteq> [] \<and> ToLower (bb ! 0) \<noteq> ''message'' \<and> ToLower (bb ! 0) \<noteq> ''pmessage'' \<longrightarrow>
        (\<exists>e. UnmarshalRESP m (Inr bb) = Returned (Inl e))
        \<and> (3 \<le> length bb \<longrightarrow> UnmarshalRESP m (Inr bb) = Returned (Inl ErrNotMessage)))
   \<and> (3 \<le> length bb \<and> ToLower (bb ! 0) = ''message'' \<and> bb ! 2 = [] \<longrightarrow>
        (\<exists>m'. UnmarshalRESP m (Inr bb) = Returned (Inr m') \<and> Message m' = []))
   \<and> (4 \<le> length bb \<and> ToLower (bb ! 0) = ''pmessage'' \<and> bb ! 3 = [] \<longrightarrow>
        (\<exists>m'. UnmarshalRESP m (Inr bb) = Returned (Inr m') \<and> Message m' = []))"
proof -
  have short: "length bb < 3 \<longrightarrow> UnmarshalRESP m (Inr bb) = Returned (Inl ErrTooFewElements)"
    by (simp add: UnmarshalRESP_short)
  have pshort: "bb \<noteq> [] \<and> ToLower (bb ! 0) = ''pmessage'' \<and> length bb < 4 \<longrightarrow>
        UnmarshalRESP m (Inr bb) = Returned (Inl ErrTooFewElements)"
    by (simp add: UnmarshalRESP_pmessage_short)
  have pat: "ToLower (bb ! 0) = ''pmessage'' \<and> 4 \<le> length bb \<longrightarrow>
        (\<exists>m'. UnmarshalRESP m (Inr bb) = Returned (Inr m') \<and> Pattern m' = bb ! 1)"
    by (simp add: UnmarshalRESP_pmessage)
  have other: "bb \<noteq> [] \<and> ToLower (bb ! 0) \<noteq> ''message'' \<and> ToLower (bb ! 0) \<noteq> ''pmessage'' \<longrightarrow>
        (\<exists>e. UnmarshalRESP m (Inr bb) = Returned (Inl e))
        \<and> (3 \<le> length bb \<longrightarrow> UnmarshalRESP m (Inr bb) = Returned (Inl ErrNotMessage))"
  proof (cases "3 \<le> length bb")
    case True
    then show ?thesis by (simp add: UnmarshalRESP_other)
  next
    case False
    then have "length bb < 3" by simp
    then show ?thesis by (simp add: UnmarshalRESP_short)
  qed
  have empty3: "3 \<le> length bb \<and> ToLower (bb ! 0) = ''message'' \<and> bb ! 2 = [] \<longrightarrow>
        (\<exists>m'. UnmarshalRESP m (Inr bb) = Returned (Inr m') \<and> Message m' = [])"
    by (simp add: UnmarshalRESP_message)
  have empty4: "4 \<le> length bb \<and> ToLower (bb ! 0) = ''pmessage'' \<and> bb ! 3 = [] \<longrightarrow>
        (\<exists>m'. UnmarshalRESP m (Inr bb) = Returned (Inr m') \<and> Message m' = [])"
    by (simp add: UnmarshalRESP_pmessage)
  from short pshort pat other empty3 empty4 show ?thesis by blast
qed

lemma ToLower_upper_message: "ToLower ''MESSAGE'' = ''message''"
  by code_simp

lemma ToLower_mixed_pmessage: "ToLower ''PMessage'' = ''pmessage''"
  by code_simp

lemma ToLower_subscribe: "ToLower ''subscribe'' = ''subscribe''"
  by code_simp

text \<open>
  The cases of the decoder at concrete sequences: two elements, a three-element \<open>PMessage\<close>, a
  four-element \<open>PMessage\<close> with an empty payload, an acknowledgement of
  \<open>subscribe\<close>, and an upper-case \<open>MESSAGE\<close> with an empty payload.
\<close>

theorem C7_decoder_cases_witness:
  "UnmarshalRESP \<lparr>Type = [], Pattern = [], Channel = [], Message = []\<rparr>
       (Inr [''message'', ''c'']) = Returned (Inl ErrTooFewElements)
   \<and> UnmarshalRESP \<lparr>Type = [], Pattern = [], Channel = [], Message = []\<rparr>
       (Inr [''PMessage'', ''p'', ''c'']) = Returned (Inl ErrTooFewElements)
   \<and> (\<exists>m'. UnmarshalRESP \<lparr>Type = [], Pattern = [], Channel = [], Message = []\<rparr>
             (Inr [''PMessage'', ''p'', ''c'', '''']) = Returned (Inr m')
           \<and> Pattern m' = ''p'' \<and> Message m' = [])
   \<and> UnmarshalRESP \<lparr>Type = [], Pattern = [], Channel = [], Message = []\<rparr>
       (Inr [''subscribe'', ''c'', ''1'']) = Returned (Inl ErrNotMessage)
   \<and> (\<exists>m'. UnmarshalRESP \<lparr>Type = [], Pattern = [], Channel = [], Message = []\<rparr>
             (Inr [''MESSAGE'', ''c'', '''']) = Returned (Inr m') \<and> Message m' = [])"
  using C7_decoder_cases [of "[''message'', ''c'']" "\<lparr>Type = [], Pattern = [], Channel = [], Message = []\<rparr>"]
        C7_decoder_cases [of "[''PMessage'', ''p'', ''c'']" "\<lparr>Type = [], Pattern = [], Channel = [], Message = []\<rparr>"]
        C7_decoder_cases [of "[''PMessage'', ''p'', ''c'', '''']" "\<lparr>Type = [], Pattern = [], Channel = [], Message = []\<rparr>"]
        C7_decoder_cases [of "[''subscribe'', ''c'', ''1'']" "\<lparr>Type = [], Pattern = [], Channel = [], Message = []\<rparr>"]
        C7_decoder_cases [of "[''MESSAGE'', ''c'', '''']" "\<lparr>Type = [], Pattern = [], Channel = [], Message = []\<rparr>"]
  by (auto simp add: ToLower_upper_message ToLower_mixed_pmessage ToLower_subscribe
        ToLower_message)

text \<open>
  The first wording, for every sequence, fails: \<open>pong\<close> is neither kind, and a
  sequence of two elements that starts with it is refused for its length, with the error
  of too few elements, not with the unrecognized-kind error.
\<close>

theorem C7_counterexample:
  "ToLower ''pong'' \<noteq> ''message'' \<and> ToLower ''pong'' \<noteq> ''pmessage''
   \<and> UnmarshalRESP \<lparr>Type = [], Pattern = [], Channel = [], Message = []\<rparr>
       (Inr [''pong'', '''']) = Returned (Inl ErrTooFewElements)
   \<and> ErrTooFewElements \<noteq> ErrNotMessage"
  by (simp add: UnmarshalRESP_def ToLower_def)


text \<open>
  Claim C10. The decoder accepts more elements than the wire shape has and ignores the
  extras: 4 or more elements starting with (a spelling of) \<open>message\<close> decode with the
  channel from the second and the payload from the third element, exactly as the first 3
  elements alone do; 5 or more elements starting with \<open>pmessage\<close> decode exactly as
  their first 4 elements do.
\<close>

theorem C10_trailing_ignored:
  "(4 \<le> length bb \<and> ToLower (bb ! 0) = ''message'' \<longrightarrow>
      UnmarshalRESP m (Inr bb) =
        Returned (Inr (m\<lparr>Type := ''message'', Channel := bb ! 1, Message := bb ! 2\<rparr>))
      \<and> UnmarshalRESP m (Inr bb) = UnmarshalRESP m (Inr (take 3 bb)))
   \<and> (5 \<le> length bb \<and> ToLower (bb ! 0) = ''pmessage'' \<longrightarrow>
      UnmarshalRESP m (Inr bb) =
        Returned (Inr (m\<lparr>Type := ''pmessage'', Pattern := bb ! 1, Channel := bb ! 2,
                         Message := bb ! 3\<rparr>))
      \<and> UnmarshalRESP m (Inr bb) = UnmarshalRESP m (Inr (take 4 bb)))"
proof -
  have lit: "UnmarshalRESP m (Inr bb) =
        Returned (Inr (m\<lparr>Type := ''message'', Channel := bb ! 1, Message := bb ! 2\<rparr>))
      \<and> UnmarshalRESP m (Inr bb) = UnmarshalRESP m (Inr (take 3 bb))"
    if "4 \<le> length bb" and low: "ToLower (bb ! 0) = ''message''"
  proof -
    from that have len: "3 \<le> length bb" by simp
    have cut: "3 \<le> length (take 3 bb)" "ToLower (take 3 bb ! 0) = ''message''"
      using len low by simp_all
    show ?thesis
      using UnmarshalRESP_message [OF len low, of m] UnmarshalRESP_message [OF cut, of m]
      by simp
  qed
  have pat: "UnmarshalRESP m (Inr bb) =
        Returned (Inr (m\<lparr>Type := ''pmessage'', Pattern := bb ! 1, Channel := bb ! 2,
                         Message := bb ! 3\<rparr>))
      \<and> UnmarshalRESP m (Inr bb) = UnmarshalRESP m (Inr (take 4 bb))"
    if "5 \<le> length bb" and low: "ToLower (bb ! 0) = ''pmessage''"
  proof -
    from that have len: "4 \<le> length bb" by simp
    have cut: "4 \<le> length (take 4 bb)" "ToLower (take 4 bb ! 0) = ''pmessage''"
      using len low by simp_all
    show ?thesis
      using UnmarshalRESP_pmessage [OF len low, of m] UnmarshalRESP_pmessage [OF cut, of m]
      by simp
  qed
  from lit pat show ?thesis by blast
qed

text \<open>
  Trailing elements at a literal message with one extra element and at a pattern message
  with two.
\<close>

theorem C10_trailing_ignored_witness:
  "UnmarshalRESP \<lparr>Type = [], Pattern = [], Channel = [], Message = []\<rparr>
       (Inr [''message'', ''c'', ''hi'', ''extra''])
     = Returned (Inr \<lparr>Type = ''message'', Pattern = [], Channel = ''c'', Message = ''hi''\<rparr>)
   \<and> UnmarshalRESP \<lparr>Type = [], Pattern = [], Channel = [], Message = []\<rparr>
       (Inr [''pmessage'', ''p'', ''c'', ''hi'', ''extra'', ''more''])
     = Returned (Inr \<lparr>Type = ''pmessage'', Pattern = ''p'', Channel = ''c'', Message = ''hi''\<rparr>)"
  using C10_trailing_ignored [of "[''message'', ''c'', ''hi'', ''extra'']"
          "\<lparr>Type = [], Pattern = [], Channel = [], Message = []\<rparr>"]
        C10_trailing_ignored [of "[''pmessage'', ''p'', ''c'', ''hi'', ''extra'', ''more'']"
          "\<lparr>Type = [], Pattern = [], Channel = [], Message = []\<rparr>"]
  by (simp add: ToLower_message ToLower_pmessage)

lemma marshal_ok:
  "w (length buf) = None \<Longrightarrow> marshal w (None, buf) item = (None, buf @ [item])"
  by (simp add: marshal_def)

lemma marshal_fails:
  "w (length buf) = Some e \<Longrightarrow> marshal w (None, buf) item = (Some e, buf)"
  by (simp add: marshal_def)

lemma marshal_skips: "marshal w (Some e, buf) item = (Some e, buf)"
  by (simp add: marshal_def)

lemma MarshalRESP_message_succeeds:
  assumes "Type m = ''message''" and "\<forall>i<4. w i = None"
  shows "MarshalRESP m w =
           (None, [ArrayHeader 3, BulkString ''message'', BulkString (Channel m),
                   BulkStringBytes (Message m)])"
proof -
  have w: "w 0 = None" "w (Suc 0) = None" "w (Suc (Suc 0)) = None"
    "w (Suc (Suc (Suc 0))) = None"
    using assms(2) by (simp_all add: numeral_eq_Suc)
  show ?thesis
    by (simp add: MarshalRESP_def Let_def assms(1) marshal_ok w)
qed

lemma MarshalRESP_pmessage_succeeds:
  assumes "Type m = ''pmessage''" and "\<forall>i<5. w i = None"
  shows "MarshalRESP m w =
           (None, [ArrayHeader 4, BulkString ''pmessage'', BulkString (Pattern m),
                   BulkString (Channel m), BulkStringBytes (Message m)])"
proof -
  have w: "w 0 = None" "w (Suc 0) = None" "w (Suc (Suc 0)) = None"
    "w (Suc (Suc (Suc 0))) = None" "w (Suc (Suc (Suc (Suc 0)))) = None"
    using assms(2) by (simp_all add: numeral_eq_Suc)
  show ?thesis
    by (simp add: MarshalRESP_def Let_def assms(1) marshal_ok w)
qed

lemma MarshalRESP_first_write_fails:
  assumes "Type m = ''message'' \<or> Type m = ''pmessage''" and "w 0 = Some e"
  shows "MarshalRESP m w = (Some e, [])"
  using assms by (auto simp: MarshalRESP_def Let_def marshal_fails marshal_skips)

text \<open>
  Claim C4. A message of type \<open>message\<close> (any channel, any payload, also the empty
  one) is encoded without error whenever its four writes succeed, and decoding what was
  written gives the same channel and payload; a message of type \<open>pmessage\<close> is encoded
  without error whenever its five writes succeed, and decoding gives the same pattern,
  channel and payload. More generally, whatever the writer does, an encoding that returned
  no error decodes to the same fields. The receiver \<open>r\<close> of the decoder is arbitrary,
  and the decoder leaves its pattern untouched for a literal message.
\<close>

theorem C4_roundtrip:
  "(Type m = ''message'' \<and> (\<forall>i<4. w i = None) \<longrightarrow>
      fst (MarshalRESP m w) = None
      \<and> UnmarshalRESP r (read_byte_strings (snd (MarshalRESP m w))) =
          Returned (Inr (r\<lparr>Type := ''message'', Channel := Channel m, Message := Message m\<rparr>)))
   \<and> (Type m = ''pmessage'' \<and> (\<forall>i<5. w i = None) \<longrightarrow>
      fst (MarshalRESP m w) = None
      \<and> UnmarshalRESP r (read_byte_strings (snd (MarshalRESP m w))) =
          Returned (Inr (r\<lparr>Type := ''pmessage'', Pattern := Pattern m, Channel := Channel m,
                           Message := Message m\<rparr>)))
   \<and> (Type m = ''message'' \<and> MarshalRESP m w = (None, items) \<longrightarrow>
      UnmarshalRESP r (read_byte_strings items) =
        Returned (Inr (r\<lparr>Type := ''message'', Channel := Channel m, Message := Message m\<rparr>)))
   \<and> (Type m = ''pmessage'' \<and> MarshalRESP m w = (None, items) \<longrightarrow>
      UnmarshalRESP r (read_byte_strings items) =
        Returned (Inr (r\<lparr>Type := ''pmessage'', Pattern := Pattern m, Channel := Channel m,
                         Message := Message m\<rparr>)))"
proof -
  have lit: "UnmarshalRESP r (read_byte_strings items) =
        Returned (Inr (r\<lparr>Type := ''message'', Channel := Channel m, Message := Message m\<rparr>))"
    if "Type m = ''message''" and "MarshalRESP m w = (None, items)" for items
  proof -
    have "read_byte_strings items = Inr [''message'', Channel m, Message m]"
      using MarshalRESP_message [OF that] by (simp add: read_message)
    then show ?thesis
      using UnmarshalRESP_message [of "[''message'', Channel m, Message m]" r]
      by (simp add: ToLower_message)
  qed
  have pat: "UnmarshalRESP r (read_byte_strings items) =
        Returned (Inr (r\<lparr>Type := ''pmessage'', Pattern := Pattern m, Channel := Channel m,
                         Message := Message m\<rparr>))"
    if "Type m = ''pmessage''" and "MarshalRESP m w = (None, items)" for items
  proof -
    have "read_byte_strings items = Inr [''pmessage'', Pattern m, Channel m, Message m]"
      using MarshalRESP_pmessage [OF that] by (simp add: read_pmessage)
    then show ?thesis
      using UnmarshalRESP_pmessage [of "[''pmessage'', Pattern m, Channel m, Message m]" r]
      by (simp add: ToLower_pmessage)
  qed
  have lit_ok: "fst (MarshalRESP m w) = None
      \<and> UnmarshalRESP r (read_byte_strings (snd (MarshalRESP m w))) =
          Returned (Inr (r\<lparr>Type := ''message'', Channel := Channel m, Message := Message m\<rparr>))"
    if t: "Type m = ''message''" and w: "\<forall>i<4. w i = None"
    using MarshalRESP_message_succeeds [OF t w] lit [OF t MarshalRESP_message_succeeds [OF t w]]
    by simp
  have pat_ok: "fst (MarshalRESP m w) = None
      \<and> UnmarshalRESP r (read_byte_strings (snd (MarshalRESP m w))) =
          Returned (Inr (r\<lparr>Type := ''pmessage'', Pattern := Pattern m, Channel := Channel m,
                           Message := Message m\<rparr>))"
    if t: "Type m = ''pmessage''" and w: "\<forall>i<5. w i = None"
    using MarshalRESP_pmessage_succeeds [OF t w]
      pat [OF t MarshalRESP_pmessage_succeeds [OF t w]]
    by simp
  from lit pat lit_ok pat_ok show ?thesis by blast
qed

text \<open>
  The round trip of a literal message with an empty payload and of a pattern message,
  written to a writer that never fails.
\<close>

theorem C4_roundtrip_witness:
  "fst (MarshalRESP \<lparr>Type = ''message'', Pattern = [], Channel = ''news'', Message = []\<rparr>
          (\<lambda>i. None)) = None
   \<and> UnmarshalRESP \<lparr>Type = [], Pattern = [], Channel = [], Message = ''old''\<rparr>
       (read_byte_strings
          (snd (MarshalRESP \<lparr>Type = ''message'', Pattern = [], Channel = ''news'', Message = []\<rparr>
                  (\<lambda>i. None))))
     = Returned (Inr \<lparr>Type = ''message'', Pattern = [], Channel = ''news'', Message = []\<rparr>)
   \<and> fst (MarshalRESP \<lparr>Type = ''pmessage'', Pattern = ''n*'', Channel = ''news'',
                        Message = ''hi''\<rparr> (\<lambda>i. None)) = None
   \<and> UnmarshalRESP \<lparr>Type = [], Pattern = [], Channel = [], Message = []\<rparr>
       (read_byte_strings
          (snd (MarshalRESP \<lparr>Type = ''pmessage'', Pattern = ''n*'', Channel = ''news'',
                             Message = ''hi''\<rparr> (\<lambda>i. None))))
     = Returned (Inr \<lparr>Type = ''pmessage'', Pattern = ''n*'', Channel = ''news'',
                      Message = ''hi''\<rparr>)"
  using C4_roundtrip [of "\<lparr>Type = ''message'', Pattern = [], Channel = ''news'', Message = []\<rparr>"
          "\<lambda>i. None" "\<lparr>Type = [], Pattern = [], Channel = [], Message = ''old''\<rparr>"]
        C4_roundtrip [of "\<lparr>Type = ''pmessage'', Pattern = ''n*'', Channel = ''news'',
                          Message = ''hi''\<rparr>"
          "\<lambda>i. None" "\<lparr>Type = [], Pattern = [], Channel = [], Message = []\<rparr>"]
  by simp

section \<open>The registry and the fan-out: claims C8, C9 and C3\<close>

text \<open>
  Claim C8. For every registry, key and sink, \<^verbatim>\<open>del\<close> returns true exactly when the key
  maps to no sink afterwards: true with the registry unchanged when the key was absent,
  true with the key deleted when the removed sink was the last one, false with the other
  sinks kept when some remain. The other keys are not touched.
\<close>

theorem C8_del_result:
  "(fst (del cs s ch) \<longleftrightarrow> lookup (snd (del cs s ch)) s = None)
   \<and> (lookup cs s = None \<longrightarrow> del cs s ch = (True, cs))
   \<and> (\<forall>m. lookup cs s = Some m \<and> m - {ch} = {} \<longrightarrow>
          fst (del cs s ch) \<and> lookup (snd (del cs s ch)) s = None)
   \<and> (\<forall>m. lookup cs s = Some m \<and> m - {ch} \<noteq> {} \<longrightarrow>
          \<not> fst (del cs s ch) \<and> lookup (snd (del cs s ch)) s = Some (m - {ch}))
   \<and> (\<forall>s'. s' \<noteq> s \<longrightarrow> lookup (snd (del cs s ch)) s' = lookup cs s')"
proof (cases cs)
  case NilSet
  then show ?thesis by simp
next
  case (ChanSet f)
  then show ?thesis
    by (cases "f s") (simp_all add: Let_def)
qed

text \<open>
  The result of \<^verbatim>\<open>del\<close> at an absent key, at the last sink of a key and at one of two
  sinks of a key.
\<close>

theorem C8_del_result_witness:
  "del (ChanSet [''a'' \<mapsto> {1}]) ''b'' 1 = (True, ChanSet [''a'' \<mapsto> {1}])
   \<and> fst (del (ChanSet [''a'' \<mapsto> {1}]) ''a'' 1)
   \<and> lookup (snd (del (ChanSet [''a'' \<mapsto> {1}]) ''a'' 1)) ''a'' = None
   \<and> \<not> fst (del (ChanSet [''a'' \<mapsto> {1, 2}]) ''a'' 1)
   \<and> lookup (snd (del (ChanSet [''a'' \<mapsto> {1, 2}]) ''a'' 1)) ''a'' = Some {2}"
  using C8_del_result [of "ChanSet [''a'' \<mapsto> {1}]" "''b''" 1]
        C8_del_result [of "ChanSet [''a'' \<mapsto> {1}]" "''a''" 1]
        C8_del_result [of "ChanSet [''a'' \<mapsto> {1, 2}]" "''a''" 1]
  by auto

lemma add_nonempty:
  "nonempty_sets (ChanSet f) \<Longrightarrow> \<exists>f'. add (ChanSet f) s ch = Some (ChanSet f') \<and> nonempty_sets (ChanSet f')"
  by (cases "f s") (auto simp: nonempty_sets_def)

lemma del_nonempty:
  "nonempty_sets (ChanSet f) \<Longrightarrow> \<exists>f'. snd (del (ChanSet f) s ch) = ChanSet f' \<and> nonempty_sets (ChanSet f')"
  by (cases "f s") (auto simp: nonempty_sets_def Let_def)

lemma reg_run_nonempty:
  "nonempty_sets (ChanSet f) \<Longrightarrow>
     \<exists>f'. reg_run (ChanSet f) ops = Some (ChanSet f') \<and> nonempty_sets (ChanSet f')"
proof (induction ops arbitrary: f)
  case Nil
  then show ?case by simp
next
  case (Cons x ops)
  show ?case
  proof (cases x)
    case (Add s ch)
    from add_nonempty [OF Cons.prems, of s ch] obtain f1
      where 1: "add (ChanSet f) s ch = Some (ChanSet f1)" "nonempty_sets (ChanSet f1)" by blast
    from Cons.IH [OF 1(2)] 1(1) Add show ?thesis by simp
  next
    case (Del s ch)
    from del_nonempty [OF Cons.prems, of s ch] obtain f1
      where 1: "snd (del (ChanSet f) s ch) = ChanSet f1" "nonempty_sets (ChanSet f1)" by blast
    from Cons.IH [OF 1(2)] 1(1) Del show ?thesis by simp
  qed
qed

text \<open>
  Claim C9. Every sequence of \<^verbatim>\<open>add\<close> and \<^verbatim>\<open>del\<close> from the empty registry runs
  without a panic and ends in a registry in which every key present has a non-empty sink
  set; there, \<^verbatim>\<open>add\<close> on a new key installs a one-element set, and \<^verbatim>\<open>del\<close>
  deletes the key at the very step its set becomes empty.
\<close>

theorem C9_registry_invariant:
  "\<exists>cs. reg_run (ChanSet Map.empty) ops = Some cs
        \<and> (\<forall>s m. lookup cs s = Some m \<longrightarrow> m \<noteq> {})
        \<and> (\<forall>s ch. lookup cs s = None \<longrightarrow>
              (\<exists>cs'. add cs s ch = Some cs' \<and> lookup cs' s = Some {ch}))
        \<and> (\<forall>s ch m. lookup cs s = Some m \<and> m - {ch} = {} \<longrightarrow>
              lookup (snd (del cs s ch)) s = None)"
proof -
  have "nonempty_sets (ChanSet Map.empty)" by (simp add: nonempty_sets_def)
  from reg_run_nonempty [OF this, of ops] obtain f
    where f: "reg_run (ChanSet Map.empty) ops = Some (ChanSet f)" "nonempty_sets (ChanSet f)"
    by blast
  have "\<forall>s m. lookup (ChanSet f) s = Some m \<longrightarrow> m \<noteq> {}"
    using f(2) by (simp add: nonempty_sets_def)
  moreover have "\<forall>s ch. lookup (ChanSet f) s = None \<longrightarrow>
              (\<exists>cs'. add (ChanSet f) s ch = Some cs' \<and> lookup cs' s = Some {ch})"
    by simp
  moreover have "\<forall>s ch m. lookup (ChanSet f) s = Some m \<and> m - {ch} = {} \<longrightarrow>
              lookup (snd (del (ChanSet f) s ch)) s = None"
    by (simp add: Let_def)
  ultimately show ?thesis using f(1) by blast
qed

lemma reg_run_example:
  "reg_run (ChanSet Map.empty) [Add ''a'' 1, Add ''a'' 2, Add ''b'' 1, Del ''a'' 1, Del ''b'' 1]
     = Some (ChanSet [''a'' \<mapsto> {2}])"
  by (auto simp: Let_def fun_eq_iff)

text \<open>
  The invariant after a sequence of three additions and two removals.
\<close>

theorem C9_registry_invariant_witness:
  "reg_run (ChanSet Map.empty) [Add ''a'' 1, Add ''a'' 2, Add ''b'' 1, Del ''a'' 1, Del ''b'' 1]
     = Some (ChanSet [''a'' \<mapsto> {2}])
   \<and> lookup (ChanSet [''a'' \<mapsto> {2}]) ''a'' = Some {2} \<and> {2::nat} \<noteq> {}
   \<and> lookup (ChanSet [''a'' \<mapsto> {2}]) ''b'' = None"
  using C9_registry_invariant [of "[Add ''a'' 1, Add ''a'' 2, Add ''b'' 1, Del ''a'' 1, Del ''b'' 1]"]
  unfolding reg_run_example by auto















section \<open>Facts about the connection\<close>

lemma do_cmd_state:
  "snd (do_cmd c exp cmd args env) = c\<lparr>issued := issued c @ [WireCmd exp cmd args]\<rparr>"
  by (simp add: do_cmd_def Let_def split: option.splits)

lemma do_cmd_encode_failure:
  "encode_err env = Some err \<Longrightarrow> fst (do_cmd c exp cmd args env) = Returned (Some err)"
  by (simp add: do_cmd_def Let_def)

lemma recv_loop_closed:
  "\<not> cmdResCh c \<Longrightarrow> 0 < exp \<Longrightarrow> recv_loop c exp rs = Returned (Some ErrConnClosed)"
  by (cases exp) (simp_all add: recvCmdRes_def)

lemma Subscribe_issued:
  assumes "subs c = ChanSet f"
  shows "issued (snd (Subscribe c msgCh keys env)) =
           issued c @
           (if filter (\<lambda>k. f k = None) keys = [] then []
            else [WireCmd (length (filter (\<lambda>k. f k = None) keys)) ''SUBSCRIBE''
                    (filter (\<lambda>k. f k = None) keys)])"
  using assms
  by (auto simp: Subscribe_def missing_eq do_cmd_def Let_def add_all_ChanSet
           split: outcome.splits option.splits)

lemma Subscribe_registry_cases:
  assumes "subs c = ChanSet f"
  shows "subs (snd (Subscribe c msgCh keys env)) = ChanSet f
         \<or> subs (snd (Subscribe c msgCh keys env)) =
             ChanSet (\<lambda>s. if s \<in> set (snd (missing (ChanSet f) keys))
                            then Some (insert msgCh (index (ChanSet f) s)) else f s)"
  using assms
  by (auto simp: Subscribe_def missing_eq do_cmd_def Let_def add_all_ChanSet
           split: outcome.splits option.splits)

lemma Subscribe_registry:
  assumes "subs c = ChanSet f"
  shows "\<exists>f'. subs (snd (Subscribe c msgCh keys env)) = ChanSet f'
              \<and> (\<forall>k. f k \<noteq> None \<longrightarrow> f' k \<noteq> None)"
proof -
  let ?g = "\<lambda>s. if s \<in> set (snd (missing (ChanSet f) keys))
                 then Some (insert msgCh (index (ChanSet f) s)) else f s"
  have "\<forall>k. f k \<noteq> None \<longrightarrow> ?g k \<noteq> None" by auto
  with Subscribe_registry_cases [OF assms, of msgCh keys env] show ?thesis by blast
qed

lemma Subscribe_error_keeps_registry:
  assumes "fst (Subscribe c msgCh keys env) = Returned (Some err)"
  shows "subs (snd (Subscribe c msgCh keys env)) = subs c
         \<and> psubs (snd (Subscribe c msgCh keys env)) = psubs c"
  using assms
  by (auto simp: Subscribe_def missing_eq do_cmd_def Let_def
           split: outcome.splits option.splits if_splits)

lemma PSubscribe_error_keeps_registry:
  assumes "fst (PSubscribe c msgCh keys env) = Returned (Some err)"
  shows "subs (snd (PSubscribe c msgCh keys env)) = subs c
         \<and> psubs (snd (PSubscribe c msgCh keys env)) = psubs c"
  using assms
  by (auto simp: PSubscribe_def missing_eq do_cmd_def Let_def
           split: outcome.splits option.splits if_splits)

lemma del_all_ChanSet:
  "\<exists>f' E. del_all (ChanSet f) ss ch acc = (ChanSet f', acc @ E)
          \<and> (\<forall>k. f k \<noteq> None \<and> f' k = None \<longrightarrow> k \<in> set E)"
proof (induction ss arbitrary: f acc)
  case Nil
  show ?case by (rule exI [of _ f], rule exI [of _ "[]"]) auto
next
  case (Cons s ss)
  obtain b f1 where d: "del (ChanSet f) s ch = (b, ChanSet f1)"
    using del_ChanSet [of f s ch] by (cases "del (ChanSet f) s ch") auto
  have gone: "\<forall>k. f k \<noteq> None \<and> f1 k = None \<longrightarrow> k = s \<and> b"
    using d by (auto simp: Let_def split: option.splits if_splits)
  from Cons.IH [of f1 "if b then acc @ [s] else acc"] obtain f' E
    where r: "del_all (ChanSet f1) ss ch (if b then acc @ [s] else acc)
                = (ChanSet f', (if b then acc @ [s] else acc) @ E)"
      and k: "\<forall>k. f1 k \<noteq> None \<and> f' k = None \<longrightarrow> k \<in> set E"
    by blast
  show ?case
  proof (cases b)
    case True
    have "del_all (ChanSet f) (s # ss) ch acc = (ChanSet f', acc @ (s # E))"
      using d r True by simp
    moreover have "\<forall>k. f k \<noteq> None \<and> f' k = None \<longrightarrow> k \<in> set (s # E)"
      using gone k by (metis list.set_intros(1) list.set_intros(2))
    ultimately show ?thesis by blast
  next
    case False
    have "del_all (ChanSet f) (s # ss) ch acc = (ChanSet f', acc @ E)"
      using d r False by simp
    moreover have "\<forall>k. f k \<noteq> None \<and> f' k = None \<longrightarrow> k \<in> set E"
      using gone k False by metis
    ultimately show ?thesis by blast
  qed
qed

lemma Unsubscribe_effect:
  assumes "subs c = ChanSet f"
  shows "\<exists>f' E. subs (snd (Unsubscribe c msgCh keys env)) = ChanSet f'
           \<and> issued (snd (Unsubscribe c msgCh keys env)) =
               issued c @ (if E = [] then [] else [WireCmd (length E) ''UNSUBSCRIBE'' E])
           \<and> (\<forall>k. f k \<noteq> None \<and> f' k = None \<longrightarrow> k \<in> set E)"
proof -
  from del_all_ChanSet [of f keys msgCh "[]"] obtain f' E
    where d: "del_all (ChanSet f) keys msgCh [] = (ChanSet f', E)"
      and k: "\<forall>k. f k \<noteq> None \<and> f' k = None \<longrightarrow> k \<in> set E"
    by auto
  have "subs (snd (Unsubscribe c msgCh keys env)) = ChanSet f'"
    using assms d by (simp add: Unsubscribe_def do_cmd_state Let_def)
  moreover have "issued (snd (Unsubscribe c msgCh keys env)) =
               issued c @ (if E = [] then [] else [WireCmd (length E) ''UNSUBSCRIBE'' E])"
    using assms d by (simp add: Unsubscribe_def do_cmd_state Let_def)
  ultimately show ?thesis using k by blast
qed

lemma step_effect:
  assumes "subs c = ChanSet f"
  shows "\<exists>f' ev. subs (snd (step c x)) = ChanSet f'
           \<and> issued (snd (step c x)) = issued c @ ev
           \<and> (f k \<noteq> None \<longrightarrow>
                (\<forall>rest. (f' k \<noteq> None \<longrightarrow> subscribe_waits k rest)
                           \<longrightarrow> subscribe_waits k (ev @ rest)))"
proof (cases x)
  case (CallSubscribe msgCh keys env)
  from Subscribe_registry [OF assms, of msgCh keys env] obtain f'
    where f': "subs (snd (Subscribe c msgCh keys env)) = ChanSet f'"
      and keep: "\<forall>k. f k \<noteq> None \<longrightarrow> f' k \<noteq> None"
    by blast
  let ?miss = "filter (\<lambda>k. f k = None) keys"
  let ?ev = "if ?miss = [] then [] else [WireCmd (length ?miss) ''SUBSCRIBE'' ?miss]"
  have "f k \<noteq> None \<longrightarrow>
          (\<forall>rest. (f' k \<noteq> None \<longrightarrow> subscribe_waits k rest) \<longrightarrow> subscribe_waits k (?ev @ rest))"
    using keep by auto
  with f' Subscribe_issued [OF assms, of msgCh keys env] CallSubscribe
  show ?thesis by (intro exI [of _ f'] exI [of _ ?ev]) simp
next
  case (CallUnsubscribe msgCh keys env)
  from Unsubscribe_effect [OF assms, of msgCh keys env] obtain f' E
    where f': "subs (snd (Unsubscribe c msgCh keys env)) = ChanSet f'"
      and ev: "issued (snd (Unsubscribe c msgCh keys env)) =
                 issued c @ (if E = [] then [] else [WireCmd (length E) ''UNSUBSCRIBE'' E])"
      and gone: "\<forall>k. f k \<noteq> None \<and> f' k = None \<longrightarrow> k \<in> set E"
    by blast
  let ?ev = "if E = [] then [] else [WireCmd (length E) ''UNSUBSCRIBE'' E]"
  have "f k \<noteq> None \<longrightarrow>
          (\<forall>rest. (f' k \<noteq> None \<longrightarrow> subscribe_waits k rest) \<longrightarrow> subscribe_waits k (?ev @ rest))"
    using gone by auto
  with f' ev CallUnsubscribe
  show ?thesis by (intro exI [of _ f'] exI [of _ ?ev]) simp
qed

lemma run_issued_grows: "\<exists>suf. issued (run c xs) = issued c @ suf"
proof (induction xs arbitrary: c)
  case Nil
  show ?case by simp
next
  case (Cons x xs)
  have st: "\<exists>ev. issued (snd (step c x)) = issued c @ ev"
    by (cases x)
       (auto simp: Subscribe_def Unsubscribe_def missing_eq do_cmd_def Let_def
             split: outcome.splits option.splits prod.splits)
  then obtain ev where ev: "issued (snd (step c x)) = issued c @ ev" by blast
  from Cons.IH [of "snd (step c x)"] obtain suf
    where "issued (run (snd (step c x)) xs) = issued (snd (step c x)) @ suf" by blast
  with ev show ?case
    by (cases "step c x") (auto split: outcome.splits)
qed

lemma run_subscribe_waits:
  "subs c = ChanSet f \<Longrightarrow> f k \<noteq> None \<Longrightarrow>
     subscribe_waits k (drop (length (issued c)) (issued (run c calls)))"
proof (induction calls arbitrary: c f)
  case Nil
  show ?case by simp
next
  case (Cons x xs)
  from step_effect [OF Cons.prems(1), of x k] Cons.prems(2) obtain f' ev
    where f': "subs (snd (step c x)) = ChanSet f'"
      and ev: "issued (snd (step c x)) = issued c @ ev"
      and w: "\<forall>rest. (f' k \<noteq> None \<longrightarrow> subscribe_waits k rest) \<longrightarrow> subscribe_waits k (ev @ rest)"
    by blast
  let ?c' = "snd (step c x)"
  show ?case
  proof (cases "fst (step c x)")
    case (Returned r)
    then have run: "run c (x # xs) = run ?c' xs"
      by (cases "step c x") simp
    from run_issued_grows [of ?c' xs] obtain suf
      where suf: "issued (run ?c' xs) = issued ?c' @ suf" by blast
    have "f' k \<noteq> None \<longrightarrow> subscribe_waits k suf"
      using Cons.IH [OF f'] suf by auto
    with w have "subscribe_waits k (ev @ suf)" by blast
    then show ?thesis using run suf ev by simp
  next
    case Blocked
    then have run: "run c (x # xs) = ?c'"
      by (cases "step c x") simp
    from w have "subscribe_waits k (ev @ [])" by (metis subscribe_waits.simps(1))
    then show ?thesis using run ev by simp
  next
    case Panicked
    then have run: "run c (x # xs) = ?c'"
      by (cases "step c x") simp
    from w have "subscribe_waits k (ev @ [])" by (metis subscribe_waits.simps(1))
    then show ?thesis using run ev by simp
  qed
qed

section \<open>Facts about a closed connection\<close>

lemma do_cmd_closed:
  "\<not> cmdResCh c \<Longrightarrow> 0 < exp \<Longrightarrow>
     fst (do_cmd c exp cmd args env) = Returned (Some (closed_error env))"
  by (simp add: do_cmd_def Let_def closed_error_def recv_loop_closed split: option.splits)

lemma missing_NilSet: "missing NilSet ss = (ss, ss)"
  by (simp add: missing_eq)

lemma closeInner_open:
  assumes "close c = OnceNew" and "closeInner c e cenv = (Returned r, c1)"
  shows "closed c1 \<and> closeErr c1 = r \<and> r = conn_close_err cenv"
  using assms
  by (auto simp: closeInner_def closed_def Let_def split: if_splits)

lemma closed_Subscribe:
  assumes "closed c"
  shows "closed (snd (Subscribe c ch keys env))"
    and "closeErr (snd (Subscribe c ch keys env)) = closeErr c"
    and "keys \<noteq> [] \<Longrightarrow> fst (Subscribe c ch keys env) = Returned (Some (closed_error env))"
proof -
  from assms have s: "subs c = NilSet" and r: "\<not> cmdResCh c"
    by (simp_all add: closed_def)
  show "keys \<noteq> [] \<Longrightarrow> fst (Subscribe c ch keys env) = Returned (Some (closed_error env))"
    using do_cmd_closed [OF r, of "length keys" "''SUBSCRIBE''" keys env]
    by (cases "do_cmd c (length keys) ''SUBSCRIBE'' keys env")
       (simp add: Subscribe_def s missing_NilSet)
  show "closed (snd (Subscribe c ch keys env))"
  proof (cases keys)
    case Nil
    with assms show ?thesis by (simp add: Subscribe_def s missing_NilSet closed_def)
  next
    case (Cons k ks)
    with do_cmd_closed [OF r, of "length keys" "''SUBSCRIBE''" keys env]
      do_cmd_state [of c "length keys" "''SUBSCRIBE''" keys env] assms
    show ?thesis
      by (cases "do_cmd c (length keys) ''SUBSCRIBE'' keys env")
         (simp add: Subscribe_def s missing_NilSet closed_def)
  qed
  show "closeErr (snd (Subscribe c ch keys env)) = closeErr c"
  proof (cases keys)
    case Nil
    with assms show ?thesis by (simp add: Subscribe_def s missing_NilSet closed_def)
  next
    case (Cons k ks)
    with do_cmd_closed [OF r, of "length keys" "''SUBSCRIBE''" keys env]
      do_cmd_state [of c "length keys" "''SUBSCRIBE''" keys env] assms
    show ?thesis
      by (cases "do_cmd c (length keys) ''SUBSCRIBE'' keys env")
         (simp add: Subscribe_def s missing_NilSet closed_def)
  qed
qed

lemma closed_PSubscribe:
  assumes "closed c"
  shows "closed (snd (PSubscribe c ch keys env))"
    and "closeErr (snd (PSubscribe c ch keys env)) = closeErr c"
    and "keys \<noteq> [] \<Longrightarrow> fst (PSubscribe c ch keys env) = Returned (Some (closed_error env))"
proof -
  from assms have s: "psubs c = NilSet" and r: "\<not> cmdResCh c"
    by (simp_all add: closed_def)
  show "keys \<noteq> [] \<Longrightarrow> fst (PSubscribe c ch keys env) = Returned (Some (closed_error env))"
    using do_cmd_closed [OF r, of "length keys" "''PSUBSCRIBE''" keys env]
    by (cases "do_cmd c (length keys) ''PSUBSCRIBE'' keys env")
       (simp add: PSubscribe_def s missing_NilSet)
  show "closed (snd (PSubscribe c ch keys env))"
  proof (cases keys)
    case Nil
    with assms show ?thesis by (simp add: PSubscribe_def s missing_NilSet closed_def)
  next
    case (Cons k ks)
    with do_cmd_closed [OF r, of "length keys" "''PSUBSCRIBE''" keys env]
      do_cmd_state [of c "length keys" "''PSUBSCRIBE''" keys env] assms
    show ?thesis
      by (cases "do_cmd c (length keys) ''PSUBSCRIBE'' keys env")
         (simp add: PSubscribe_def s missing_NilSet closed_def)
  qed
  show "closeErr (snd (PSubscribe c ch keys env)) = closeErr c"
  proof (cases keys)
    case Nil
    with assms show ?thesis by (simp add: PSubscribe_def s missing_NilSet closed_def)
  next
    case (Cons k ks)
    with do_cmd_closed [OF r, of "length keys" "''PSUBSCRIBE''" keys env]
      do_cmd_state [of c "length keys" "''PSUBSCRIBE''" keys env] assms
    show ?thesis
      by (cases "do_cmd c (length keys) ''PSUBSCRIBE'' keys env")
         (simp add: PSubscribe_def s missing_NilSet closed_def)
  qed
qed

lemma closed_Unsubscribe:
  assumes "closed c"
  shows "closed (snd (Unsubscribe c ch keys env))"
    and "closeErr (snd (Unsubscribe c ch keys env)) = closeErr c"
    and "keys \<noteq> [] \<Longrightarrow> fst (Unsubscribe c ch keys env) = Returned (Some (closed_error env))"
proof -
  from assms have s: "subs c = NilSet" and r: "\<not> cmdResCh (c\<lparr>subs := NilSet\<rparr>)"
    by (simp_all add: closed_def)
  show "keys \<noteq> [] \<Longrightarrow> fst (Unsubscribe c ch keys env) = Returned (Some (closed_error env))"
    using do_cmd_closed [OF r, of "length keys" "''UNSUBSCRIBE''" keys env]
    by (simp add: Unsubscribe_def s del_all_NilSet Let_def)
  show "closed (snd (Unsubscribe c ch keys env))"
    using assms by (simp add: Unsubscribe_def s del_all_NilSet do_cmd_state closed_def Let_def)
  show "closeErr (snd (Unsubscribe c ch keys env)) = closeErr c"
    by (simp add: Unsubscribe_def s del_all_NilSet do_cmd_state Let_def)
qed

lemma closed_PUnsubscribe:
  assumes "closed c"
  shows "closed (snd (PUnsubscribe c ch keys env))"
    and "closeErr (snd (PUnsubscribe c ch keys env)) = closeErr c"
    and "keys \<noteq> [] \<Longrightarrow> fst (PUnsubscribe c ch keys env) = Returned (Some (closed_error env))"
proof -
  from assms have s: "psubs c = NilSet" and r: "\<not> cmdResCh (c\<lparr>psubs := NilSet\<rparr>)"
    by (simp_all add: closed_def)
  show "keys \<noteq> [] \<Longrightarrow> fst (PUnsubscribe c ch keys env) = Returned (Some (closed_error env))"
    using do_cmd_closed [OF r, of "length keys" "''PUNSUBSCRIBE''" keys env]
    by (simp add: PUnsubscribe_def s del_all_NilSet Let_def)
  show "closed (snd (PUnsubscribe c ch keys env))"
    using assms by (simp add: PUnsubscribe_def s del_all_NilSet do_cmd_state closed_def Let_def)
  show "closeErr (snd (PUnsubscribe c ch keys env)) = closeErr c"
    by (simp add: PUnsubscribe_def s del_all_NilSet do_cmd_state Let_def)
qed

lemma closed_Ping:
  assumes "closed c"
  shows "closed (snd (Ping c env))"
    and "closeErr (snd (Ping c env)) = closeErr c"
    and "fst (Ping c env) = Returned (Some (closed_error env))"
proof -
  from assms have r: "\<not> cmdResCh c" by (simp add: closed_def)
  show "fst (Ping c env) = Returned (Some (closed_error env))"
    using do_cmd_closed [OF r, of 1 "''PING''" "[]" env] by (simp add: Ping_def)
  show "closed (snd (Ping c env))"
    using assms by (simp add: Ping_def do_cmd_state closed_def)
  show "closeErr (snd (Ping c env)) = closeErr c"
    by (simp add: Ping_def do_cmd_state)
qed

lemma closed_Close:
  "closed c \<Longrightarrow> Close c cenv = (Returned (closeErr c), c)"
  by (simp add: Close_def closeInner_def closed_def)

lemma closed_empty_keys:
  assumes "closed c"
  shows "Subscribe c ch [] env = (Returned None, c) \<and> Unsubscribe c ch [] env = (Returned None, c)
         \<and> PSubscribe c ch [] env = (Returned None, c)
         \<and> PUnsubscribe c ch [] env = (Returned None, c)"
proof -
  from assms have s: "subs c = NilSet" and p: "psubs c = NilSet"
    by (simp_all add: closed_def)
  from s have cs: "c\<lparr>subs := NilSet\<rparr> = c" by simp
  from p have cp: "c\<lparr>psubs := NilSet\<rparr> = c" by simp
  show ?thesis
    by (simp add: Subscribe_def Unsubscribe_def PSubscribe_def PUnsubscribe_def missing_NilSet
          s p cs cp)
qed

section \<open>Facts about two closes at the same time\<close>

lemma close_inv_sym: "close_inv env c p q \<Longrightarrow> close_inv env c q p"
  by (auto simp: close_inv_def)

lemma close_inv_start: "close c = OnceNew \<Longrightarrow> close_inv env c PcEnter PcEnter"
  by (simp add: close_inv_def)

lemma close_step_ready:
  "closeErrCh c \<longrightarrow> observer_ready env \<Longrightarrow> close_step env e c p = (c', p') \<Longrightarrow>
     closeErrCh c' \<longrightarrow> observer_ready env"
  by (cases p; cases "close c") (auto split: if_splits)

lemma interleave_ready:
  "closeErrCh c \<longrightarrow> observer_ready env \<Longrightarrow>
   interleave env e1 e2 sched (c, p, q) = (c', p', q') \<Longrightarrow>
     closeErrCh c' \<longrightarrow> observer_ready env"
proof (induction sched arbitrary: c p q)
  case Nil
  then show ?case by simp
next
  case (Cons t ts)
  show ?case
  proof (cases t)
    case True
    obtain c1 p1 where s: "close_step env e1 c p = (c1, p1)" by (cases "close_step env e1 c p")
    from close_step_ready [OF Cons.prems(1) s] have "closeErrCh c1 \<longrightarrow> observer_ready env" .
    moreover from Cons.prems(2) True s have "interleave env e1 e2 ts (c1, p1, q) = (c', p', q')"
      by simp
    ultimately show ?thesis by (rule Cons.IH)
  next
    case False
    obtain c1 q1 where s: "close_step env e2 c q = (c1, q1)" by (cases "close_step env e2 c q")
    from close_step_ready [OF Cons.prems(1) s] have "closeErrCh c1 \<longrightarrow> observer_ready env" .
    moreover from Cons.prems(2) False s have "interleave env e1 e2 ts (c1, p, q1) = (c', p', q')"
      by simp
    ultimately show ?thesis by (rule Cons.IH)
  qed
qed

lemma close_step_inv:
  assumes "close_inv env c p q" and "close_step env e c p = (c', p')"
  shows "close_inv env c' p' q"
proof (cases p)
  case PcEnter
  with assms show ?thesis
    by (cases "close c"; cases q) (auto simp: close_inv_def done_ok_def closed_def)
next
  case PcConnClose
  with assms show ?thesis
    by (cases q) (auto simp: close_inv_def done_ok_def closed_def)
next
  case PcSubs
  with assms show ?thesis
    by (cases q) (auto simp: close_inv_def done_ok_def closed_def)
next
  case PcPsubs
  with assms show ?thesis
    by (cases q) (auto simp: close_inv_def done_ok_def closed_def)
next
  case PcNotify
  with assms show ?thesis
    by (cases q) (auto simp: close_inv_def done_ok_def closed_def split: if_splits)
next
  case PcCmdResCh
  with assms show ?thesis
    by (cases q) (auto simp: close_inv_def done_ok_def closed_def)
next
  case PcLeave
  with assms show ?thesis
    by (cases q) (auto simp: close_inv_def done_ok_def closed_def)
next
  case PcReturn
  with assms show ?thesis
    by (cases q) (auto simp: close_inv_def done_ok_def closed_def)
next
  case (PcReturned r)
  with assms show ?thesis
    by (cases q) (auto simp: close_inv_def done_ok_def closed_def)
qed

lemma interleave_inv:
  "close_inv env c p q \<Longrightarrow> interleave env e1 e2 sched (c, p, q) = (c', p', q') \<Longrightarrow>
     close_inv env c' p' q'"
proof (induction sched arbitrary: c p q)
  case Nil
  then show ?case by simp
next
  case (Cons t ts)
  show ?case
  proof (cases t)
    case True
    obtain c1 p1 where s: "close_step env e1 c p = (c1, p1)" by (cases "close_step env e1 c p")
    from close_step_inv [OF Cons.prems(1) s] have "close_inv env c1 p1 q" .
    moreover from Cons.prems(2) True s have "interleave env e1 e2 ts (c1, p1, q) = (c', p', q')"
      by simp
    ultimately show ?thesis by (rule Cons.IH)
  next
    case False
    obtain c1 q1 where s: "close_step env e2 c q = (c1, q1)" by (cases "close_step env e2 c q")
    from close_step_inv [OF close_inv_sym [OF Cons.prems(1)] s]
    have "close_inv env c1 p q1" by (rule close_inv_sym)
    moreover from Cons.prems(2) False s have "interleave env e1 e2 ts (c1, p, q1) = (c', p', q')"
      by simp
    ultimately show ?thesis by (rule Cons.IH)
  qed
qed

lemma interleave_first:
  "interleave env e1 e2 (replicate n True) (c, p, q) =
     (fst (close_steps env e1 n (c, p)), snd (close_steps env e1 n (c, p)), q)"
proof (induction n arbitrary: c p)
  case 0
  show ?case by simp
next
  case (Suc n)
  show ?case by (cases "close_step env e1 c p") (simp add: Suc.IH)
qed

lemma interleave_second:
  "interleave env e1 e2 (replicate n False) (c, p, q) =
     (fst (close_steps env e2 n (c, q)), p, snd (close_steps env e2 n (c, q)))"
proof (induction n arbitrary: c q)
  case 0
  show ?case by simp
next
  case (Suc n)
  show ?case by (cases "close_step env e2 c q") (simp add: Suc.IH)
qed

lemma interleave_append:
  "interleave env e1 e2 (xs @ ys) cfg = interleave env e1 e2 ys (interleave env e1 e2 xs cfg)"
proof (induction xs arbitrary: cfg)
  case Nil
  show ?case by simp
next
  case (Cons t ts)
  obtain c p q where cfg: "cfg = (c, p, q)" by (cases cfg)
  show ?case
    by (cases t; cases "close_step env e1 c p"; cases "close_step env e2 c q")
       (simp_all add: cfg Cons.IH)
qed

lemma close_steps_finish:
  assumes "close_inv env c p q" and "\<not> in_body q" and "closeErrCh c \<longrightarrow> observer_ready env"
  shows "\<exists>c'. close_steps env e 8 (c, p) = (c', PcReturned (conn_close_err env))
              \<and> done_ok env c'"
proof (cases p)
  case PcEnter
  with assms show ?thesis
    by (cases "close c")
       (auto simp: close_inv_def done_ok_def closed_def eval_nat_numeral)
next
  case PcConnClose
  with assms show ?thesis
    by (auto simp: close_inv_def done_ok_def closed_def eval_nat_numeral)
next
  case PcSubs
  with assms show ?thesis
    by (auto simp: close_inv_def done_ok_def closed_def eval_nat_numeral)
next
  case PcPsubs
  with assms show ?thesis
    by (auto simp: close_inv_def done_ok_def closed_def eval_nat_numeral)
next
  case PcNotify
  with assms show ?thesis
    by (auto simp: close_inv_def done_ok_def closed_def eval_nat_numeral)
next
  case PcCmdResCh
  with assms show ?thesis
    by (auto simp: close_inv_def done_ok_def closed_def eval_nat_numeral)
next
  case PcLeave
  with assms show ?thesis
    by (auto simp: close_inv_def done_ok_def closed_def eval_nat_numeral)
next
  case PcReturn
  with assms show ?thesis
    by (auto simp: close_inv_def done_ok_def closed_def eval_nat_numeral)
next
  case (PcReturned r)
  with assms show ?thesis
    by (auto simp: close_inv_def done_ok_def closed_def eval_nat_numeral)
qed

lemma close_steps_wait:
  assumes "close_inv env c p q" and "in_body q"
  shows "close_steps env e n (c, p) = (c, p)"
proof -
  from assms have run: "close c = OnceRunning" and "\<not> in_body p"
    by (cases q; auto simp: close_inv_def)+
  with assms(1) have p: "p = PcEnter"
    by (cases p) (auto simp: close_inv_def done_ok_def closed_def)
  show ?thesis
    by (induction n) (simp_all add: p run)
qed

lemma close_steps_closeInner:
  assumes "closeInner c e env = (Returned r, c')" and "close c \<noteq> OnceRunning"
  shows "close_steps env e 8 (c, PcEnter) = (c', PcReturned r)"
  using assms
  by (cases "close c")
     (auto simp: closeInner_def Let_def eval_nat_numeral split: if_splits)

lemma both_return:
  assumes inv: "close_inv env c p q" and rdy: "closeErrCh c \<longrightarrow> observer_ready env"
  shows "\<exists>c'. interleave env e1 e2 (replicate 8 True @ replicate 8 False @ replicate 8 True)
                 (c, p, q)
               = (c', PcReturned (conn_close_err env), PcReturned (conn_close_err env))
             \<and> closed c'"
proof -
  let ?r = "PcReturned (conn_close_err env)"
  have two: "\<exists>c2 p2. interleave env e1 e2 (replicate 8 True @ replicate 8 False) (c, p, q)
                 = (c2, p2, ?r)"
  proof (cases "in_body q")
    case True
    from close_steps_wait [OF inv True, of e1 8]
    have one: "interleave env e1 e2 (replicate 8 True) (c, p, q) = (c, p, q)"
      by (simp add: interleave_first)
    from inv True have "\<not> in_body p" by (auto simp: close_inv_def)
    from close_steps_finish [OF close_inv_sym [OF inv] this rdy, of e2] obtain c2
      where c2: "close_steps env e2 8 (c, q) = (c2, ?r)" by blast
    then have "interleave env e1 e2 (replicate 8 True @ replicate 8 False) (c, p, q)
                 = (c2, p, ?r)"
      by (simp add: interleave_append one interleave_second)
    then show ?thesis by blast
  next
    case False
    from close_steps_finish [OF inv False rdy, of e1] obtain c1
      where c1: "close_steps env e1 8 (c, p) = (c1, ?r)" by blast
    then have one: "interleave env e1 e2 (replicate 8 True) (c, p, q) = (c1, ?r, q)"
      by (simp add: interleave_first)
    from interleave_inv [OF inv one] have inv1: "close_inv env c1 ?r q" .
    from interleave_ready [OF rdy one] have rdy1: "closeErrCh c1 \<longrightarrow> observer_ready env" .
    have "\<not> in_body ?r" by simp
    from close_steps_finish [OF close_inv_sym [OF inv1] this rdy1, of e2] obtain c2
      where c2: "close_steps env e2 8 (c1, q) = (c2, ?r)" by blast
    then have "interleave env e1 e2 (replicate 8 True @ replicate 8 False) (c, p, q)
                 = (c2, ?r, ?r)"
      by (simp add: interleave_append one interleave_second)
    then show ?thesis by blast
  qed
  then obtain c2 p2
    where run2: "interleave env e1 e2 (replicate 8 True @ replicate 8 False) (c, p, q)
                 = (c2, p2, ?r)" by blast
  from interleave_inv [OF inv run2] have inv2: "close_inv env c2 p2 ?r" .
  from interleave_ready [OF rdy run2] have rdy2: "closeErrCh c2 \<longrightarrow> observer_ready env" .
  have "\<not> in_body ?r" by simp
  from close_steps_finish [OF inv2 this rdy2, of e1] obtain c3
    where c3: "close_steps env e1 8 (c2, p2) = (c3, ?r)" and d: "done_ok env c3" by blast
  have "interleave env e1 e2 (replicate 8 True @ replicate 8 False @ replicate 8 True) (c, p, q)
          = interleave env e1 e2 (replicate 8 True) (c2, p2, ?r)"
    using run2 interleave_append [of env e1 e2 "replicate 8 True @ replicate 8 False"
        "replicate 8 True" "(c, p, q)"]
    by simp
  also have "\<dots> = (c3, ?r, ?r)"
    using c3 by (simp add: interleave_first)
  finally show ?thesis using d by (auto simp: done_ok_def)
qed

lemma interleave_safe:
  assumes "close c = OnceNew"
    and "interleave env e1 e2 sched (c, PcEnter, PcEnter) = (c2, p1, p2)"
  shows "(\<forall>r. p1 = PcReturned r \<longrightarrow> r = conn_close_err env \<and> closed c2)
       \<and> (\<forall>r. p2 = PcReturned r \<longrightarrow> r = conn_close_err env \<and> closed c2)
       \<and> \<not> (in_body p1 \<and> in_body p2)"
  using interleave_inv [OF close_inv_start [OF assms(1)] assms(2)]
  by (auto simp: close_inv_def done_ok_def)

lemma interleave_live:
  assumes "close c = OnceNew" and "closeErrCh c \<longrightarrow> observer_ready env"
  shows "\<exists>c3. interleave env e1 e2
                 (sched @ replicate 8 True @ replicate 8 False @ replicate 8 True)
                 (c, PcEnter, PcEnter)
               = (c3, PcReturned (conn_close_err env), PcReturned (conn_close_err env))
             \<and> closed c3"
proof -
  obtain c2 p1 p2 where run: "interleave env e1 e2 sched (c, PcEnter, PcEnter) = (c2, p1, p2)"
    by (cases "interleave env e1 e2 sched (c, PcEnter, PcEnter)")
  from interleave_inv [OF close_inv_start [OF assms(1)] run] have inv: "close_inv env c2 p1 p2" .
  from interleave_ready [OF assms(2) run] have rdy: "closeErrCh c2 \<longrightarrow> observer_ready env" .
  from both_return [OF inv rdy, of e1 e2] show ?thesis
    by (simp add: interleave_append [of env e1 e2 sched] run)
qed

lemma interleave_alone:
  assumes "closeInner c e1 env = (Returned r, c1)" and "close c \<noteq> OnceRunning"
  shows "interleave env e1 e2 (replicate 8 True) (c, PcEnter, q) = (c1, PcReturned r, q)"
  using close_steps_closeInner [OF assms] by (simp add: interleave_first)


lemma other_follows:
  assumes "close_inv env c p q"
  shows "(\<forall>r. p = PcReturned r \<longrightarrow>
            interleave env e1 e2 [False, False] (c, p, q) = (c, PcReturned r, PcReturned r))
       \<and> (\<forall>r. q = PcReturned r \<longrightarrow>
            interleave env e1 e2 [True, True] (c, p, q) = (c, PcReturned r, PcReturned r))"
proof -
  have a: "interleave env e1 e2 [False, False] (c, p, q) = (c, PcReturned r, PcReturned r)"
    if "p = PcReturned r" for r
    using assms that
    by (cases q) (auto simp: close_inv_def done_ok_def closed_def)
  have b: "interleave env e1 e2 [True, True] (c, p, q) = (c, PcReturned r, PcReturned r)"
    if "q = PcReturned r" for r
    using assms that
    by (cases p) (auto simp: close_inv_def done_ok_def closed_def)
  from a b show ?thesis by blast
qed

section \<open>Unsubscribe and Subscribe on the wire: claims C1 and C2\<close>

text \<open>
  Claim C1, amended. On a connection whose literal registry is not nil: when the key is
  present in the registry with some sinks and the sink is not one of them,
  \<^verbatim>\<open>Unsubscribe(sink, key)\<close> issues no wire command, returns no error and changes
  nothing; when the key is absent from the registry, \<^verbatim>\<open>del\<close> answers true, and the
  call issues \<^verbatim>\<open>UNSUBSCRIBE key\<close> with one expected acknowledgement and returns
  what \<^verbatim>\<open>do\<close> returns.
\<close>

theorem C1_unsubscribe_unregistered:
  "(subs c = ChanSet f \<and> f key = Some m \<and> msgCh \<notin> m \<and> m \<noteq> {} \<longrightarrow>
      Unsubscribe c msgCh [key] env = (Returned None, c))
   \<and> (subs c = ChanSet f \<and> f key = None \<longrightarrow>
      Unsubscribe c msgCh [key] env = do_cmd c 1 ''UNSUBSCRIBE'' [key] env
      \<and> issued (snd (Unsubscribe c msgCh [key] env)) =
          issued c @ [WireCmd 1 ''UNSUBSCRIBE'' [key]])"
proof -
  have present: "Unsubscribe c msgCh [key] env = (Returned None, c)"
    if "subs c = ChanSet f" "f key = Some m" "msgCh \<notin> m" "m \<noteq> {}"
  proof -
    from that have "f(key \<mapsto> m) = f" by (simp add: fun_upd_idem)
    moreover from that have "c\<lparr>subs := ChanSet f\<rparr> = c" by simp
    ultimately show ?thesis
      using that by (simp add: Unsubscribe_def Let_def)
  qed
  have absent: "Unsubscribe c msgCh [key] env = do_cmd c 1 ''UNSUBSCRIBE'' [key] env"
    if "subs c = ChanSet f" "f key = None"
  proof -
    from that have same: "c\<lparr>subs := ChanSet f\<rparr> = c" by simp
    show ?thesis
      using that by (simp add: Unsubscribe_def Let_def same)
  qed
  from present absent show ?thesis
    by (simp add: do_cmd_state)
qed

text \<open>
  The two cases at a registry holding \<open>a\<close> for sink 1: sink 7 unsubscribes from
  \<open>a\<close> (nothing happens, even with a broken connection) and from the absent \<open>b\<close>
  (a wire command).
\<close>

theorem C1_unsubscribe_unregistered_witness:
  "Unsubscribe (PubSub\<lparr>subs := ChanSet [''a'' \<mapsto> {1}]\<rparr>) 7 [''a''] broken_pipe
     = (Returned None, PubSub\<lparr>subs := ChanSet [''a'' \<mapsto> {1}]\<rparr>)
   \<and> issued (snd (Unsubscribe (PubSub\<lparr>subs := ChanSet [''a'' \<mapsto> {1}]\<rparr>) 7 [''b''] (acks 1)))
       = [WireCmd 1 ''UNSUBSCRIBE'' [''b'']]"
  using C1_unsubscribe_unregistered [of "PubSub\<lparr>subs := ChanSet [''a'' \<mapsto> {1}]\<rparr>"
          "[''a'' \<mapsto> {1}]" "''a''" "{1}" 7 broken_pipe]
        C1_unsubscribe_unregistered [of "PubSub\<lparr>subs := ChanSet [''a'' \<mapsto> {1}]\<rparr>"
          "[''a'' \<mapsto> {1}]" "''b''" "{}" 7 "acks 1"]
  by (simp add: PubSub_def newPubSub_def do_cmd_state)

text \<open>
  The first wording, with the key absent from the registry, fails: on the fresh
  connection the key \<open>a\<close> is absent from the literal registry, and \<^verbatim>\<open>Unsubscribe\<close> of sink 7 from \<open>a\<close> hands
  \<^verbatim>\<open>UNSUBSCRIBE a\<close> to \<^verbatim>\<open>do\<close>; when encoding fails the call returns that error.
\<close>

theorem C1_counterexample:
  "lookup (subs PubSub) ''a'' = None
   \<and> issued PubSub = []
   \<and> issued (snd (Unsubscribe PubSub 7 [''a''] (acks 1))) = [WireCmd 1 ''UNSUBSCRIBE'' [''a'']]
   \<and> fst (Unsubscribe PubSub 7 [''a''] broken_pipe) = Returned (Some (ErrExternal ''broken pipe''))"
  by (simp add: Unsubscribe_def PubSub_def newPubSub_def do_cmd_def acks_def broken_pipe_def
        Let_def)

text \<open>
  Claim C2. On a connection whose literal registry is not nil, a call of
  \<^verbatim>\<open>Subscribe\<close> adds to the log of wire commands nothing when all its keys are
  present, and otherwise one \<^verbatim>\<open>SUBSCRIBE\<close> that names exactly the requested keys
  not yet present (in the order and with the multiplicity of the call), its expected
  acknowledgement count being the number of names. And for every key \<open>k\<close> present in
  the registry and every sequence of \<^verbatim>\<open>Subscribe\<close> and \<^verbatim>\<open>Unsubscribe\<close> calls,
  by any sinks and in any surroundings, the commands issued from then on contain no
  \<^verbatim>\<open>SUBSCRIBE\<close> naming \<open>k\<close> before an \<^verbatim>\<open>UNSUBSCRIBE\<close> naming \<open>k\<close>: the
  \<^verbatim>\<open>SUBSCRIBE\<close> that made the key present stays the only one until an
  \<^verbatim>\<open>Unsubscribe\<close> has removed the last sink of the key.
\<close>

theorem C2_subscribe_once:
  "subs c = ChanSet f \<longrightarrow>
     issued (snd (Subscribe c msgCh keys env)) =
       issued c @
       (if filter (\<lambda>k. f k = None) keys = [] then []
        else [WireCmd (length (filter (\<lambda>k. f k = None) keys)) ''SUBSCRIBE''
                (filter (\<lambda>k. f k = None) keys)])
     \<and> (f k \<noteq> None \<longrightarrow>
          subscribe_waits k (drop (length (issued c)) (issued (run c calls))))"
  using Subscribe_issued [of c f msgCh keys env] run_subscribe_waits [of c f k calls]
  by blast

lemma one_subscribed_reached:
  "Subscribe PubSub 1 [''chan1''] (acks 1) = (Returned None, one_subscribed)"
  by (simp add: Subscribe_def missing_eq do_cmd_def acks_def recvCmdRes_def PubSub_def
        newPubSub_def one_subscribed_def Let_def)

lemma one_subscribed_run:
  "issued (run one_subscribed
       [CallSubscribe 2 [''chan1''] (acks 0), CallUnsubscribe 1 [''chan1''] (acks 0),
        CallUnsubscribe 2 [''chan1''] (acks 1), CallSubscribe 1 [''chan1''] (acks 1)])
     = [WireCmd 1 ''SUBSCRIBE'' [''chan1''], WireCmd 1 ''UNSUBSCRIBE'' [''chan1''],
        WireCmd 1 ''SUBSCRIBE'' [''chan1'']]"
  by (auto simp: Subscribe_def Unsubscribe_def missing_eq do_cmd_def acks_def recvCmdRes_def
        PubSub_def newPubSub_def one_subscribed_def Let_def)

text \<open>
  On the connection where \<open>chan1\<close> is present: a second sink subscribing to
  \<open>chan1\<close> and twice to \<open>chan2\<close> issues \<^verbatim>\<open>SUBSCRIBE chan2 chan2\<close> only, a
  second sink subscribing to \<open>chan1\<close> alone issues nothing, and over the calls
  subscribe, unsubscribe, unsubscribe, subscribe the second \<^verbatim>\<open>SUBSCRIBE chan1\<close>
  comes after the \<^verbatim>\<open>UNSUBSCRIBE chan1\<close>.
\<close>

theorem C2_subscribe_once_witness:
  "issued (snd (Subscribe one_subscribed 2 [''chan1'', ''chan2'', ''chan2''] (acks 2)))
     = [WireCmd 1 ''SUBSCRIBE'' [''chan1''], WireCmd 2 ''SUBSCRIBE'' [''chan2'', ''chan2'']]
   \<and> issued (snd (Subscribe one_subscribed 2 [''chan1''] (acks 0)))
     = [WireCmd 1 ''SUBSCRIBE'' [''chan1'']]
   \<and> subscribe_waits ''chan1''
        [WireCmd 1 ''UNSUBSCRIBE'' [''chan1''], WireCmd 1 ''SUBSCRIBE'' [''chan1'']]"
  using C2_subscribe_once [of one_subscribed "[''chan1'' \<mapsto> {1}]" 2
          "[''chan1'', ''chan2'', ''chan2'']" "acks 2" "''chan1''"
          "[CallSubscribe 2 [''chan1''] (acks 0), CallUnsubscribe 1 [''chan1''] (acks 0),
            CallUnsubscribe 2 [''chan1''] (acks 1), CallSubscribe 1 [''chan1''] (acks 1)]"]
        C2_subscribe_once [of one_subscribed "[''chan1'' \<mapsto> {1}]" 2
          "[''chan1'']" "acks 0" "''chan1''" "[]"]
  unfolding one_subscribed_run
  by (simp add: one_subscribed_def PubSub_def newPubSub_def)

section \<open>Close and the aliased slice: claims C5 and C6\<close>

lemma closed_conn_reached: "Close PubSub quiet_close = (Returned None, closed_conn)"
  by (simp add: Close_def closeInner_def quiet_close_def PubSub_def newPubSub_def
        closed_conn_def Let_def)

text \<open>
  Claim C5, amended. When \<^verbatim>\<open>Close\<close> on an open connection has returned, the
  connection is closed and the returned value is the cached result of
  \<^verbatim>\<open>conn.Close\<close>. On a closed connection, \<^verbatim>\<open>Ping\<close> and every
  \<^verbatim>\<open>Subscribe\<close>, \<^verbatim>\<open>Unsubscribe\<close>, \<^verbatim>\<open>PSubscribe\<close> and
  \<^verbatim>\<open>PUnsubscribe\<close> with a non-empty key list return an error, without blocking or
  panicking: the error of \<^verbatim>\<open>conn.Encode\<close> when encoding fails, the
  connection-closed error otherwise. With an empty key list the four subscription calls
  issue nothing, change nothing and return nil. Every one of these calls, with any key
  list, leaves the connection closed and the cached result untouched, so the same holds
  for every later call; and another \<^verbatim>\<open>Close\<close>, in any surroundings, returns the
  cached result again and changes nothing.

  A second close at the same time as the first: in every interleaving of the steps of two
  calls on an open connection, a call that has returned has returned the result of
  \<^verbatim>\<open>conn.Close\<close>, the same for both, and the connection is closed by then; the two
  calls are never both inside the function passed to \<^verbatim>\<open>close.Do\<close>; no step
  panics; as soon as one call has returned, two steps of the other make it return the
  same value, and change nothing; and when the observer, if there is one, takes the
  notification, both calls do return: after any interleaving, eight steps of the first
  call, eight of the second and eight of the first again leave both returned, with that
  value. The steps of one call alone give what \<^verbatim>\<open>Close\<close> gives.
\<close>

theorem C5_after_close:
  "(close c = OnceNew \<and> Close c cenv = (Returned r, c1) \<longrightarrow>
      closed c1 \<and> closeErr c1 = r \<and> r = conn_close_err cenv)
   \<and> (closed c' \<longrightarrow>
        (keys \<noteq> [] \<longrightarrow>
           fst (Subscribe c' ch keys env) = Returned (Some (closed_error env))
         \<and> fst (Unsubscribe c' ch keys env) = Returned (Some (closed_error env))
         \<and> fst (PSubscribe c' ch keys env) = Returned (Some (closed_error env))
         \<and> fst (PUnsubscribe c' ch keys env) = Returned (Some (closed_error env)))
      \<and> Subscribe c' ch [] env = (Returned None, c')
      \<and> Unsubscribe c' ch [] env = (Returned None, c')
      \<and> PSubscribe c' ch [] env = (Returned None, c')
      \<and> PUnsubscribe c' ch [] env = (Returned None, c')
      \<and> fst (Ping c' env) = Returned (Some (closed_error env))
      \<and> Close c' cenv' = (Returned (closeErr c'), c')
      \<and> closed (snd (Subscribe c' ch keys env)) \<and> closed (snd (Unsubscribe c' ch keys env))
      \<and> closed (snd (PSubscribe c' ch keys env)) \<and> closed (snd (PUnsubscribe c' ch keys env))
      \<and> closed (snd (Ping c' env))
      \<and> closeErr (snd (Subscribe c' ch keys env)) = closeErr c'
      \<and> closeErr (snd (Unsubscribe c' ch keys env)) = closeErr c'
      \<and> closeErr (snd (PSubscribe c' ch keys env)) = closeErr c'
      \<and> closeErr (snd (PUnsubscribe c' ch keys env)) = closeErr c'
      \<and> closeErr (snd (Ping c' env)) = closeErr c')
   \<and> (close c = OnceNew \<and> interleave cenv e1 e2 sched (c, PcEnter, PcEnter) = (c2, p1, p2) \<longrightarrow>
        (\<forall>r. p1 = PcReturned r \<longrightarrow> r = conn_close_err cenv \<and> closed c2)
      \<and> (\<forall>r. p2 = PcReturned r \<longrightarrow> r = conn_close_err cenv \<and> closed c2)
      \<and> \<not> (in_body p1 \<and> in_body p2)
      \<and> (\<forall>r. p1 = PcReturned r \<longrightarrow>
             interleave cenv e1 e2 [False, False] (c2, p1, p2)
               = (c2, PcReturned r, PcReturned r))
      \<and> (\<forall>r. p2 = PcReturned r \<longrightarrow>
             interleave cenv e1 e2 [True, True] (c2, p1, p2)
               = (c2, PcReturned r, PcReturned r))
      \<and> ((closeErrCh c \<longrightarrow> observer_ready cenv) \<longrightarrow>
           (\<exists>c3. interleave cenv e1 e2
                    (sched @ replicate 8 True @ replicate 8 False @ replicate 8 True)
                    (c, PcEnter, PcEnter)
                  = (c3, PcReturned (conn_close_err cenv), PcReturned (conn_close_err cenv))
                \<and> closed c3)))
   \<and> (close c \<noteq> OnceRunning \<and> Close c cenv = (Returned r, c1) \<longrightarrow>
        interleave cenv None e2 (replicate 8 True) (c, PcEnter, p2) = (c1, PcReturned r, p2))"
proof -
  have first: "close c = OnceNew \<and> Close c cenv = (Returned r, c1) \<longrightarrow>
      closed c1 \<and> closeErr c1 = r \<and> r = conn_close_err cenv"
    using closeInner_open [of c None cenv r c1] by (simp add: Close_def)
  have later: "(keys \<noteq> [] \<longrightarrow>
           fst (Subscribe c' ch keys env) = Returned (Some (closed_error env))
         \<and> fst (Unsubscribe c' ch keys env) = Returned (Some (closed_error env))
         \<and> fst (PSubscribe c' ch keys env) = Returned (Some (closed_error env))
         \<and> fst (PUnsubscribe c' ch keys env) = Returned (Some (closed_error env)))
      \<and> Subscribe c' ch [] env = (Returned None, c')
      \<and> Unsubscribe c' ch [] env = (Returned None, c')
      \<and> PSubscribe c' ch [] env = (Returned None, c')
      \<and> PUnsubscribe c' ch [] env = (Returned None, c')
      \<and> fst (Ping c' env) = Returned (Some (closed_error env))
      \<and> Close c' cenv' = (Returned (closeErr c'), c')
      \<and> closed (snd (Subscribe c' ch keys env)) \<and> closed (snd (Unsubscribe c' ch keys env))
      \<and> closed (snd (PSubscribe c' ch keys env)) \<and> closed (snd (PUnsubscribe c' ch keys env))
      \<and> closed (snd (Ping c' env))
      \<and> closeErr (snd (Subscribe c' ch keys env)) = closeErr c'
      \<and> closeErr (snd (Unsubscribe c' ch keys env)) = closeErr c'
      \<and> closeErr (snd (PSubscribe c' ch keys env)) = closeErr c'
      \<and> closeErr (snd (PUnsubscribe c' ch keys env)) = closeErr c'
      \<and> closeErr (snd (Ping c' env)) = closeErr c'" if "closed c'"
    using closed_Subscribe [OF that, where ch = ch and keys = keys and env = env]
      closed_Unsubscribe [OF that, where ch = ch and keys = keys and env = env]
      closed_PSubscribe [OF that, where ch = ch and keys = keys and env = env]
      closed_PUnsubscribe [OF that, where ch = ch and keys = keys and env = env]
      closed_Ping [OF that, where env = env] closed_Close [OF that, of cenv']
      closed_empty_keys [OF that, of ch env]
    by simp
  have conc: "(\<forall>r. p1 = PcReturned r \<longrightarrow> r = conn_close_err cenv \<and> closed c2)
      \<and> (\<forall>r. p2 = PcReturned r \<longrightarrow> r = conn_close_err cenv \<and> closed c2)
      \<and> \<not> (in_body p1 \<and> in_body p2)
      \<and> (\<forall>r. p1 = PcReturned r \<longrightarrow>
             interleave cenv e1 e2 [False, False] (c2, p1, p2)
               = (c2, PcReturned r, PcReturned r))
      \<and> (\<forall>r. p2 = PcReturned r \<longrightarrow>
             interleave cenv e1 e2 [True, True] (c2, p1, p2)
               = (c2, PcReturned r, PcReturned r))
      \<and> ((closeErrCh c \<longrightarrow> observer_ready cenv) \<longrightarrow>
           (\<exists>c3. interleave cenv e1 e2
                    (sched @ replicate 8 True @ replicate 8 False @ replicate 8 True)
                    (c, PcEnter, PcEnter)
                  = (c3, PcReturned (conn_close_err cenv), PcReturned (conn_close_err cenv))
                \<and> closed c3))"
    if new: "close c = OnceNew"
      and run: "interleave cenv e1 e2 sched (c, PcEnter, PcEnter) = (c2, p1, p2)"
    using interleave_safe [OF new run] interleave_live [OF new, of cenv e1 e2 sched]
      other_follows [OF interleave_inv [OF close_inv_start [OF new] run], of e1 e2]
    by blast
  have alone: "interleave cenv None e2 (replicate 8 True) (c, PcEnter, p2)
                 = (c1, PcReturned r, p2)"
    if "close c \<noteq> OnceRunning" and "Close c cenv = (Returned r, c1)"
    using interleave_alone [of c None cenv r c1 e2 p2] that by (simp add: Close_def)
  from first later conc alone show ?thesis by blast
qed

lemma racing_reaches:
  "interleave quiet_close None None racing (PubSub, PcEnter, PcEnter)
     = (PubSub\<lparr>close := OnceRunning\<rparr>, PcSubs, PcEnter)"
  by (simp add: racing_def quiet_close_def PubSub_def newPubSub_def)

lemma first_alone:
  "interleave quiet_close None None (replicate 8 True) (PubSub, PcEnter, PcEnter)
     = (closed_conn, PcReturned None, PcEnter)"
  by (simp add: quiet_close_def PubSub_def newPubSub_def closed_conn_def eval_nat_numeral)

lemma racing_finishes:
  "interleave quiet_close None None
       (racing @ replicate 8 True @ replicate 8 False @ replicate 8 True)
       (PubSub, PcEnter, PcEnter)
     = (closed_conn, PcReturned None, PcReturned None)"
  by (simp add: racing_def quiet_close_def PubSub_def newPubSub_def closed_conn_def
        eval_nat_numeral)


text \<open>
  The calls on the closed fresh connection: a subscribe whose command is encoded, a
  pattern unsubscribe whose command is not, a ping, and a second close; and two closes of
  the fresh connection at the same time, the second arriving while the first is inside
  the function, or when the first has returned.
\<close>

theorem C5_after_close_witness:
  "fst (Subscribe closed_conn 1 [''a''] (acks 1)) = Returned (Some ErrConnClosed)
   \<and> fst (PUnsubscribe closed_conn 1 [''a*''] broken_pipe)
       = Returned (Some (ErrExternal ''broken pipe''))
   \<and> fst (Ping closed_conn (acks 1)) = Returned (Some ErrConnClosed)
   \<and> Close closed_conn \<lparr>conn_close_err = Some (ErrExternal ''late''), observer_ready = False\<rparr>
       = (Returned None, closed_conn)
   \<and> interleave quiet_close None None
         (racing @ replicate 8 True @ replicate 8 False @ replicate 8 True)
         (PubSub, PcEnter, PcEnter)
       = (closed_conn, PcReturned None, PcReturned None)
   \<and> interleave quiet_close None None [False, False] (closed_conn, PcReturned None, PcEnter)
       = (closed_conn, PcReturned None, PcReturned None)"
  using C5_after_close [where c = PubSub and cenv = quiet_close and r = None
          and ?c1.0 = closed_conn and c' = closed_conn and keys = "[''a'']" and ch = 1
          and env = "acks 1"
          and cenv' = "\<lparr>conn_close_err = Some (ErrExternal ''late''), observer_ready = False\<rparr>"
          and ?e1.0 = None and ?e2.0 = None and sched = racing
          and ?c2.0 = "PubSub\<lparr>close := OnceRunning\<rparr>" and ?p1.0 = PcSubs and ?p2.0 = PcEnter]
        C5_after_close [where c = PubSub and cenv = quiet_close and r = None
          and ?c1.0 = closed_conn and c' = closed_conn and keys = "[''a*'']" and ch = 1
          and env = broken_pipe
          and cenv' = "\<lparr>conn_close_err = Some (ErrExternal ''late''), observer_ready = False\<rparr>"
          and ?e1.0 = None and ?e2.0 = None and sched = racing
          and ?c2.0 = "PubSub\<lparr>close := OnceRunning\<rparr>" and ?p1.0 = PcSubs and ?p2.0 = PcEnter]
        C5_after_close [where c = PubSub and cenv = quiet_close and r = None
          and ?c1.0 = closed_conn and c' = closed_conn and keys = "[''a'']" and ch = 1
          and env = "acks 1" and cenv' = quiet_close
          and ?e1.0 = None and ?e2.0 = None and sched = "replicate 8 True"
          and ?c2.0 = closed_conn and ?p1.0 = "PcReturned None" and ?p2.0 = PcEnter]
  unfolding racing_finishes racing_reaches first_alone
  by (simp add: closed_conn_reached)
     (simp add: closed_conn_def PubSub_def newPubSub_def closed_error_def acks_def
        broken_pipe_def quiet_close_def)

text \<open>
  The first wording, for every argument list, fails: after \<^verbatim>\<open>Close\<close> has returned, \<^verbatim>\<open>Subscribe\<close> and
  \<^verbatim>\<open>Unsubscribe\<close> with an empty key list return nil, not an error.
\<close>

theorem C5_counterexample:
  "Close PubSub quiet_close = (Returned None, closed_conn)
   \<and> Subscribe closed_conn 1 [] (acks 0) = (Returned None, closed_conn)
   \<and> Unsubscribe closed_conn 1 [] (acks 0) = (Returned None, closed_conn)"
  by (simp add: closed_conn_reached)
     (simp add: Subscribe_def Unsubscribe_def missing_eq closed_conn_def PubSub_def
        newPubSub_def Let_def)

text \<open>
  Claim C6 at a failing input. Sink 1 has subscribed to \<open>chan1\<close>. Sink 2 subscribes to
  \<open>chan1\<close> and \<open>chan2\<close>, the wire command \<^verbatim>\<open>SUBSCRIBE chan2\<close> succeeds and the
  call returns nil; sink 2 is registered under \<open>chan2\<close>, but \<open>chan1\<close> still holds
  sink 1 alone: the in-place filter of \<^verbatim>\<open>missing\<close> has overwritten \<open>chan1\<close> in
  the slice that the adding loop reads.
\<close>

theorem C6_present_key_skipped:
  "Subscribe PubSub 1 [''chan1''] (acks 1) = (Returned None, one_subscribed)
   \<and> fst (Subscribe one_subscribed 2 [''chan1'', ''chan2''] (acks 1)) = Returned None
   \<and> lookup (subs (snd (Subscribe one_subscribed 2 [''chan1'', ''chan2''] (acks 1)))) ''chan1''
       = Some {1}
   \<and> lookup (subs (snd (Subscribe one_subscribed 2 [''chan1'', ''chan2''] (acks 1)))) ''chan2''
       = Some {2}"
  by (simp add: one_subscribed_reached)
     (simp add: Subscribe_def missing_eq do_cmd_def acks_def recvCmdRes_def PubSub_def
        newPubSub_def one_subscribed_def Let_def)

end
